theory Spec2Isabelle
  imports Main "HOL-Library.Sublist"
begin

section \<open>Python string operations used by the optimizer\<close>

text \<open>
  Chunks are Python \<open>str\<close> values; they are modelled as \<open>string\<close> (a list of
  characters). Every marker and fragment the code searches for is plain ASCII, so matching
  on the characters of the list is matching as Python does it.
\<close>

text \<open>\<open>s.startswith(pat)\<close>\<close>

fun startswith :: "string \<Rightarrow> string \<Rightarrow> bool" where
  "startswith s [] = True"
| "startswith [] (p # ps) = False"
| "startswith (c # cs) (p # ps) = (c = p \<and> startswith cs ps)"

text \<open>
  \<open>s.index(pat)\<close>: the position of the first occurrence of \<open>pat\<close> in \<open>s\<close>.
  Python raises ValueError when there is none; that is \<open>None\<close> here.
\<close>

fun str_index :: "string \<Rightarrow> string \<Rightarrow> nat option" where
  "str_index [] pat = (if pat = [] then Some 0 else None)"
| "str_index (c # cs) pat =
     (if startswith (c # cs) pat then Some 0 else map_option Suc (str_index cs pat))"

text \<open>\<open>pat in s\<close>\<close>

definition str_contains :: "string \<Rightarrow> string \<Rightarrow> bool" where
  "str_contains pat s = (str_index s pat \<noteq> None)"

text \<open>
  \<open>s.replace(old, new)\<close>: every non-overlapping occurrence of \<open>old\<close>, found from left
  to right in one pass, is replaced by \<open>new\<close>. For an empty \<open>old\<close> Python puts \<open>new\<close>
  before every character and at the end.
\<close>

function str_replace :: "string \<Rightarrow> string \<Rightarrow> string \<Rightarrow> string" where
  "str_replace s old new =
     (if old = [] then new @ concat (map (\<lambda>c. c # new) s)
      else case s of
             [] \<Rightarrow> []
           | c # cs \<Rightarrow>
               if startswith s old then new @ str_replace (drop (length old) s) old new
               else c # str_replace cs old new)"
  by pat_completeness auto
termination
  by (relation "measure (\<lambda>(s, old, new). length s)") auto

section \<open>The transducer context\<close>

text \<open>The dict \<open>context = {"first_think_found": False}\<close> created for each request.\<close>

record ctx =
  first_think_found :: bool

definition new_context :: ctx where
  "new_context = \<lparr>first_think_found = False\<rparr>"

section \<open>\<open>_transform_chunk\<close>\<close>

definition think_open :: string where
  "think_open = ''<think>''"

definition think_close :: string where
  "think_close = ''</think>''"

text \<open>The text put in place of the first \<open><think>\<close>: newline, fence, label, newline.\<close>

definition block_open :: string where
  "block_open = CHR 0x0A # ''```Reasoning...'' @ [CHR 0x0A]"

text \<open>The text put in place of a \<open></think>\<close> taken as the last one.\<close>

definition block_close :: string where
  "block_close = CHR 0x0A # ''```'' @ [CHR 0x0A]"

text \<open>
  One iteration of \<open>while "<think>" in result\<close>, for the index \<open>idx\<close> of the first
  occurrence: the replacement when the context has seen no \<open><think>\<close> yet (the flag is
  then set), the deletion otherwise.
\<close>

definition think_body :: "nat \<Rightarrow> string \<Rightarrow> ctx \<Rightarrow> string \<times> ctx" where
  "think_body idx result ctx =
     (if \<not> first_think_found ctx
      then (take idx result @ block_open @ drop (idx + length think_open) result,
            ctx\<lparr>first_think_found := True\<rparr>)
      else (take idx result @ drop (idx + length think_open) result, ctx))"

text \<open>One iteration of \<open>while "</think>" in result\<close>.\<close>

definition close_body :: "nat \<Rightarrow> bool \<Rightarrow> string \<Rightarrow> string" where
  "close_body idx is_last_think result =
     (if is_last_think
      then take idx result @ block_close @ drop (idx + length think_close) result
      else take idx result @ drop (idx + length think_close) result)"

text \<open>
  The measure that falls in every iteration of the first loop: the length of the text,
  plus a credit that the one replacement (which makes the text longer) uses up.
\<close>

definition think_measure :: "string \<times> ctx \<Rightarrow> nat" where
  "think_measure rc =
     length (fst rc) + (if first_think_found (snd rc) then 0 else length block_open)"

lemma startswith_length: "startswith s pat \<Longrightarrow> length pat \<le> length s"
  by (induction s pat rule: startswith.induct) auto

lemma str_index_bound: "str_index s pat = Some idx \<Longrightarrow> idx + length pat \<le> length s"
proof (induction s arbitrary: idx)
  case Nil
  then show ?case by (simp split: if_splits)
next
  case (Cons c cs)
  show ?case
  proof (cases "startswith (c # cs) pat")
    case True
    with Cons.prems have "idx = 0" by simp
    with True show ?thesis using startswith_length by fastforce
  next
    case False
    with Cons.prems obtain j where j: "str_index cs pat = Some j" "idx = Suc j"
      by auto
    from Cons.IH [OF j(1)] j(2) show ?thesis by simp
  qed
qed

lemma think_body_measure:
  "str_index result think_open = Some idx \<Longrightarrow>
   think_measure (think_body idx result ctx) < think_measure (result, ctx)"
  by (drule str_index_bound)
     (auto simp: think_measure_def think_body_def think_open_def block_open_def)

lemma close_body_length:
  "str_index result think_close = Some idx \<Longrightarrow>
   length (close_body idx is_last_think result) < length result"
  by (drule str_index_bound)
     (auto simp: close_body_def think_close_def block_close_def)

text \<open>The loop \<open>while "<think>" in result\<close>, with the context it updates.\<close>

function think_loop :: "string \<Rightarrow> ctx \<Rightarrow> string \<times> ctx" where
  "think_loop result ctx =
     (case str_index result think_open of
        None \<Rightarrow> (result, ctx)
      | Some idx \<Rightarrow>
          (case think_body idx result ctx of (result', ctx') \<Rightarrow> think_loop result' ctx'))"
  by pat_completeness auto
termination
  apply (relation "measure (\<lambda>(result, ctx). think_measure (result, ctx))")
   apply simp
  subgoal premises p for result ctx idx x y
    using think_body_measure [OF p(1), of ctx] p(2) by simp
  done

text \<open>The loop \<open>while "</think>" in result\<close>.\<close>

function close_loop :: "bool \<Rightarrow> string \<Rightarrow> string" where
  "close_loop is_last_think result =
     (case str_index result think_close of
        None \<Rightarrow> result
      | Some idx \<Rightarrow> close_loop is_last_think (close_body idx is_last_think result))"
  by pat_completeness auto
termination
  by (relation "measure (\<lambda>(l, r). length r)") (auto simp: close_body_length)

text \<open>The fragments removed after the two loops, in the order of the source.\<close>

definition fragments :: "string list" where
  "fragments = [''/think>'', ''think>'', ''hink>'', ''ink>'', ''nk>'', ''k>'']"

text \<open>\<open>for pattern in [...]: result = result.replace(pattern, "")\<close>\<close>

definition remove_fragments :: "string \<Rightarrow> string" where
  "remove_fragments result = foldl (\<lambda>r pattern. str_replace r pattern []) result fragments"

definition transform_chunk :: "string \<Rightarrow> bool \<Rightarrow> ctx \<Rightarrow> string \<times> ctx" where
  "transform_chunk chunk is_last_think ctx =
     (case think_loop chunk ctx of
        (result, ctx') \<Rightarrow> (remove_fragments (close_loop is_last_think result), ctx'))"

section \<open>\<open>_try_finalize_chunks\<close> and \<open>_finalize_all_chunks\<close>\<close>

text \<open>\<open>buffer.pop(i)\<close> for an index inside the list: the buffer without its element \<open>i\<close>.\<close>

definition list_pop :: "nat \<Rightarrow> 'a list \<Rightarrow> 'a list" where
  "list_pop i buffer = take i buffer @ drop (Suc i) buffer"

text \<open>
  The loop \<open>while i < len(buffer)\<close> of \<open>_try_finalize_chunks\<close>, on the variables it
  works on: the index \<open>i\<close>, the buffer, the context and the list \<open>finalized\<close>. The
  \<open>break\<close> returns the three of them as they are. Every other path of the body ends in
  \<open>continue\<close>, so that the \<open>i += 1\<close> at the end of the body is never reached.
\<close>

function try_finalize_loop ::
  "bool \<Rightarrow> nat \<Rightarrow> string list \<Rightarrow> ctx \<Rightarrow> string list \<Rightarrow> string list \<times> string list \<times> ctx"
where
  "try_finalize_loop partial i buffer ctx finalized =
     (if i < length buffer then
        if str_contains think_close (buffer ! i) then
          if partial \<and> i + 5 \<ge> length buffer then (finalized, buffer, ctx)
          else
            (case transform_chunk (buffer ! i)
                    (\<not> list_ex (str_contains think_close) (take 5 (drop i (list_pop i buffer))))
                    ctx of
               (processed, ctx') \<Rightarrow>
                 try_finalize_loop partial i (list_pop i buffer) ctx' (finalized @ [processed]))
        else
          (case transform_chunk (buffer ! i) False ctx of
             (processed, ctx') \<Rightarrow>
               try_finalize_loop partial i (list_pop i buffer) ctx' (finalized @ [processed]))
      else (finalized, buffer, ctx))"
  by pat_completeness auto
termination
  by (relation "measure (\<lambda>(partial, i, buffer, ctx, finalized). length buffer)")
     (auto simp: list_pop_def)

text \<open>
  \<open>_try_finalize_chunks(buffer, context, partial)\<close>: the list it returns, with the buffer
  and the context as the call leaves them (both are mutated in place by the source).
\<close>

definition try_finalize_chunks ::
  "string list \<Rightarrow> ctx \<Rightarrow> bool \<Rightarrow> string list \<times> string list \<times> ctx"
where
  "try_finalize_chunks buffer ctx partial = try_finalize_loop partial 0 buffer ctx []"

text \<open>
  The loop \<open>while buffer: chunk = buffer.pop(0); ...; yield chunk\<close> of
  \<open>_finalize_all_chunks\<close>, with the chunks yielded so far.
\<close>

fun finalize_loop ::
  "string list \<Rightarrow> ctx \<Rightarrow> string list \<Rightarrow> string list \<times> string list \<times> ctx"
where
  "finalize_loop [] ctx yielded = (yielded, [], ctx)"
| "finalize_loop (chunk # buffer) ctx yielded =
     (case transform_chunk chunk True ctx of
        (chunk', ctx') \<Rightarrow> finalize_loop buffer ctx' (yielded @ [chunk']))"

text \<open>
  \<open>_finalize_all_chunks(buffer, context)\<close>: the chunks the generator yields, in order,
  with the buffer and the context as it leaves them.
\<close>

definition finalize_all_chunks ::
  "string list \<Rightarrow> ctx \<Rightarrow> string list \<times> string list \<times> ctx"
where
  "finalize_all_chunks buffer ctx = finalize_loop buffer ctx []"

section \<open>The stream loop of \<open>pipe\<close>\<close>

text \<open>
  What the loop \<open>async for raw_line in response.aiter_lines()\<close> does with a line depends
  on the line only through the cases below; parsing the JSON is the library's work.
  \<^item> \<open>Skipped\<close>: the line does not start with \<open>data:\<close>;
  \<^item> \<open>Done\<close>: the payload is \<open>[DONE]\<close>;
  \<^item> \<open>Malformed js\<close>: \<open>json.loads\<close> rejects the payload \<open>js\<close> (JSONDecodeError);
  \<^item> \<open>NoChoices\<close>: the object has no \<open>choices\<close>, or an empty list;
  \<^item> \<open>Finish\<close>: \<open>choices[0]\<close> has a \<open>finish_reason\<close>;
  \<^item> \<open>Delta reasoning content\<close>: the two texts of \<open>choices[0]["delta"]\<close>;
  \<^item> \<open>Raises\<close>: reading or handling the line raises another exception (the transport
    fails, or \<open>choices[0]\<close> has no \<open>delta\<close>).
\<close>

datatype raw_line =
  Skipped
| Done
| Malformed string
| NoChoices
| Finish
| Delta string string
| Raises

text \<open>What the generator yields: a text fragment, or one of the two error payloads.\<close>

datatype yielded =
  Fragment string
| JSONDecodeError string
| ExceptionPayload

text \<open>
  The loop over the lines, from line 92 to the end of \<open>pipe\<close>: the values yielded, and
  the buffer and the context when the generator finishes. When the lines run out the loop
  ends and the generator finishes with nothing more.
\<close>

fun pipe_lines ::
  "raw_line list \<Rightarrow> string list \<Rightarrow> ctx \<Rightarrow> yielded list \<times> string list \<times> ctx"
where
  "pipe_lines [] chunk_buffer ctx = ([], chunk_buffer, ctx)"
| "pipe_lines (Skipped # ls) chunk_buffer ctx = pipe_lines ls chunk_buffer ctx"
| "pipe_lines (Done # ls) chunk_buffer ctx =
     (case finalize_all_chunks chunk_buffer ctx of
        (final, chunk_buffer', ctx') \<Rightarrow> (map Fragment final, chunk_buffer', ctx'))"
| "pipe_lines (Malformed js # ls) chunk_buffer ctx = ([JSONDecodeError js], chunk_buffer, ctx)"
| "pipe_lines (NoChoices # ls) chunk_buffer ctx = pipe_lines ls chunk_buffer ctx"
| "pipe_lines (Finish # ls) chunk_buffer ctx =
     (case finalize_all_chunks chunk_buffer ctx of
        (final, chunk_buffer', ctx') \<Rightarrow> (map Fragment final, chunk_buffer', ctx'))"
| "pipe_lines (Delta reasoning_part content_part # ls) chunk_buffer ctx =
     (case try_finalize_chunks (chunk_buffer @ [reasoning_part @ content_part]) ctx True of
        (finalized, chunk_buffer', ctx') \<Rightarrow>
          (case pipe_lines ls chunk_buffer' ctx' of
             (ys, chunk_buffer'', ctx'') \<Rightarrow> (map Fragment finalized @ ys, chunk_buffer'', ctx'')))"
| "pipe_lines (Raises # ls) chunk_buffer ctx =
     (case finalize_all_chunks chunk_buffer ctx of
        (final, chunk_buffer', ctx') \<Rightarrow>
          (map Fragment final @ [ExceptionPayload], chunk_buffer', ctx'))"

text \<open>
  The stream part of \<open>pipe\<close> for one request: a fresh buffer and a fresh context
  (lines 76 and 77), then the loop.
\<close>

definition pipe_stream :: "raw_line list \<Rightarrow> yielded list \<times> string list \<times> ctx" where
  "pipe_stream ls = pipe_lines ls [] new_context"

section \<open>Notions used to state the properties\<close>

text \<open>
  The context after the chunks \<open>chunks\<close> have been transformed, in any mode, starting
  from \<open>ctx\<close>: the flag is set once one of them holds a \<open><think>\<close>.
\<close>

definition ctx_after :: "ctx \<Rightarrow> string list \<Rightarrow> ctx" where
  "ctx_after ctx chunks =
     ctx\<lparr>first_think_found := first_think_found ctx \<or> list_ex (str_contains think_open) chunks\<rparr>"

text \<open>No occurrence of \<open>pat\<close> starts inside \<open>P\<close>, whatever text follows \<open>P\<close>.\<close>

definition shields :: "string \<Rightarrow> string \<Rightarrow> bool" where
  "shields P pat = (\<forall>v. \<forall>j<length P. \<not> prefix pat (drop j (P @ v)))"

text \<open>Two adjacent \<open>>\<close> characters; a chunk without them is one without \<open>>>\<close>.\<close>

definition gt_gt :: string where
  "gt_gt = ''>>''"

text \<open>The shortest fragment; each marker and each fragment ends with it.\<close>

definition k_gt :: string where
  "k_gt = ''k>''"

text \<open>
  The fragments of a whole stream, described in one pass over its chunks. \<open>waiting\<close> says
  that an earlier chunk with a \<open></think>\<close> has fewer than 5 chunks after it, so that it
  and all later chunks stay in the buffer until the forced finalization.
\<close>

fun stream_fragments :: "bool \<Rightarrow> string list \<Rightarrow> ctx \<Rightarrow> string list" where
  "stream_fragments waiting [] ctx = []"
| "stream_fragments waiting (chunk # rest) ctx =
     (case transform_chunk chunk
             (waiting \<or> (str_contains think_close chunk \<and>
                (length rest < 5 \<or> \<not> list_ex (str_contains think_close) (take 5 rest))))
             ctx of
        (processed, ctx') \<Rightarrow>
          processed #
          stream_fragments (waiting \<or> (str_contains think_close chunk \<and> length rest < 5))
            rest ctx')"

text \<open>The number of positions of \<open>s\<close> at which \<open>pat\<close> occurs.\<close>

fun count_occurrences :: "string \<Rightarrow> string \<Rightarrow> nat" where
  "count_occurrences [] pat = (if pat = [] then 1 else 0)"
| "count_occurrences (c # cs) pat =
     (if startswith (c # cs) pat then 1 else 0) + count_occurrences cs pat"

section \<open>Basic facts about the string operations\<close>

declare str_replace.simps [simp del]
declare think_loop.simps [simp del]
declare close_loop.simps [simp del]
declare try_finalize_loop.simps [simp del]

lemma str_replace_absent: "str_index s old = None \<Longrightarrow> str_replace s old new = s"
proof (induction s)
  case Nil
  then show ?case by (simp add: str_replace.simps split: if_splits)
next
  case (Cons c cs)
  from Cons.prems have ne: "old \<noteq> []" by (cases old) auto
  from Cons.prems have "\<not> startswith (c # cs) old" "str_index cs old = None"
    by (simp_all split: if_splits)
  with Cons.IH ne show ?case by (simp add: str_replace.simps [of "c # cs"])
qed

lemma think_loop_absent:
  "str_index chunk think_open = None \<Longrightarrow> think_loop chunk ctx = (chunk, ctx)"
  by (simp add: think_loop.simps)

lemma close_loop_absent:
  "str_index result think_close = None \<Longrightarrow> close_loop is_last_think result = result"
  by (simp add: close_loop.simps)

lemma remove_fragments_absent:
  assumes "\<forall>p \<in> set fragments. \<not> str_contains p result"
  shows "remove_fragments result = result"
  using assms
  by (simp add: remove_fragments_def fragments_def str_contains_def str_replace_absent)

section \<open>Plain content passes through\<close>

text \<open>
  Claim C9. A chunk with no occurrence of \<open><think>\<close>, of \<open></think>\<close> or of any of
  the fragments \<open>/think>\<close>, \<open>think>\<close>, \<open>hink>\<close>, \<open>ink>\<close>, \<open>nk>\<close>, \<open>k>\<close> is
  returned unchanged by \<open>_transform_chunk\<close>, whatever \<open>is_last_think\<close> and the context
  are; the context is left as it was too.
\<close>

theorem transform_chunk_plain:
  assumes "\<not> str_contains think_open chunk"
    and "\<not> str_contains think_close chunk"
    and "\<forall>p \<in> set fragments. \<not> str_contains p chunk"
  shows "transform_chunk chunk is_last_think ctx = (chunk, ctx)"
  using assms remove_fragments_absent [of chunk]
  by (simp add: transform_chunk_def str_contains_def think_loop_absent close_loop_absent)

theorem transform_chunk_plain_witness:
  "\<not> str_contains think_open ''a < b > c, think'' \<and>
   \<not> str_contains think_close ''a < b > c, think'' \<and>
   list_all (\<lambda>p. \<not> str_contains p ''a < b > c, think'') fragments \<and>
   transform_chunk ''a < b > c, think'' True new_context = (''a < b > c, think'', new_context)"
proof -
  have a: "\<not> str_contains think_open ''a < b > c, think''" by code_simp
  have b: "\<not> str_contains think_close ''a < b > c, think''" by code_simp
  have c: "list_all (\<lambda>p. \<not> str_contains p ''a < b > c, think'') fragments" by code_simp
  then have c': "\<forall>p \<in> set fragments. \<not> str_contains p ''a < b > c, think''"
    by (simp add: list_all_iff)
  from a b c transform_chunk_plain [OF a b c', of True new_context] show ?thesis by blast
qed

section \<open>The scenarios of the specification\<close>

text \<open>
  Claim C7. For the chunks \<open><think>\<close>, \<open>hello\<close>, \<open></think>\<close>, \<open>world\<close> the loop yields
  the block-open decoration and \<open>hello\<close> while the stream is open and keeps \<open></think>\<close>
  and \<open>world\<close> in the buffer; the forced finalization of that buffer yields the
  block-close decoration and \<open>world\<close>; so the stream followed by \<open>[DONE]\<close> yields the
  four fragments in that order.
\<close>

theorem scenario_think_hello_world:
  "pipe_stream [Delta [] ''<think>'', Delta [] ''hello'', Delta [] ''</think>'', Delta [] ''world'']
     = ([Fragment block_open, Fragment ''hello''], [''</think>'', ''world''],
        \<lparr>first_think_found = True\<rparr>) \<and>
   finalize_all_chunks [''</think>'', ''world''] \<lparr>first_think_found = True\<rparr>
     = ([block_close, ''world''], [], \<lparr>first_think_found = True\<rparr>) \<and>
   pipe_stream [Delta [] ''<think>'', Delta [] ''hello'', Delta [] ''</think>'', Delta [] ''world'',
                Done]
     = ([Fragment block_open, Fragment ''hello'', Fragment block_close, Fragment ''world''], [],
        \<lparr>first_think_found = True\<rparr>)"
  by code_simp

section \<open>The context after a transformation\<close>

lemma think_body_found:
  "first_think_found (snd (think_body idx result ctx))"
  by (simp add: think_body_def)

lemma think_body_ctx:
  "snd (think_body idx result ctx) = ctx\<lparr>first_think_found := True\<rparr>"
  by (simp add: think_body_def)

lemma think_loop_found:
  "first_think_found ctx \<Longrightarrow> snd (think_loop result ctx) = ctx"
proof (induction result ctx rule: think_loop.induct)
  case (1 result ctx)
  show ?case
  proof (cases "str_index result think_open")
    case None
    then show ?thesis by (simp add: think_loop.simps)
  next
    case (Some idx)
    obtain result' ctx' where b: "think_body idx result ctx = (result', ctx')"
      by (cases "think_body idx result ctx")
    with "1.prems" have c: "ctx' = ctx" by (auto simp: think_body_def)
    from "1.IH" [OF Some b [symmetric]] "1.prems" c
    have "snd (think_loop result' ctx') = ctx" by simp
    with Some b show ?thesis by (simp add: think_loop.simps [of result])
  qed
qed

lemma think_loop_ctx:
  "snd (think_loop result ctx) =
     ctx\<lparr>first_think_found := first_think_found ctx \<or> str_contains think_open result\<rparr>"
proof (cases "str_index result think_open")
  case None
  then show ?thesis by (simp add: think_loop.simps str_contains_def)
next
  case (Some idx)
  obtain result' ctx' where b: "think_body idx result ctx = (result', ctx')"
    by (cases "think_body idx result ctx")
  then have c: "ctx' = ctx\<lparr>first_think_found := True\<rparr>"
    using think_body_ctx [of idx result ctx] by simp
  then have "snd (think_loop result' ctx') = ctx'"
    by (simp add: think_loop_found)
  with Some b c show ?thesis
    by (simp add: think_loop.simps [of result] str_contains_def)
qed

lemma transform_chunk_ctx:
  "snd (transform_chunk chunk is_last_think ctx) =
     ctx\<lparr>first_think_found := first_think_found ctx \<or> str_contains think_open chunk\<rparr>"
  using think_loop_ctx [of chunk ctx]
  by (cases "think_loop chunk ctx") (simp add: transform_chunk_def)

section \<open>Forced finalization\<close>

lemma finalize_loop_acc:
  "finalize_loop buffer ctx (xs @ ys) =
     (case finalize_loop buffer ctx ys of (f, b, c) \<Rightarrow> (xs @ f, b, c))"
  by (induction buffer arbitrary: ctx ys) (auto split: prod.splits)

lemma finalize_all_chunks_Nil: "finalize_all_chunks [] ctx = ([], [], ctx)"
  by (simp add: finalize_all_chunks_def)

lemma finalize_all_chunks_Cons:
  "finalize_all_chunks (chunk # buffer) ctx =
     (case transform_chunk chunk True ctx of
        (chunk', ctx') \<Rightarrow>
          (case finalize_all_chunks buffer ctx' of (f, b, c) \<Rightarrow> (chunk' # f, b, c)))"
  using finalize_loop_acc [of buffer _ "[_]" "[]"]
  by (simp add: finalize_all_chunks_def split: prod.splits)

lemma ctx_after_Nil [simp]: "ctx_after ctx [] = ctx"
  by (simp add: ctx_after_def)

lemma ctx_after_Cons:
  "ctx_after ctx (c # cs) = ctx_after (snd (transform_chunk c l ctx)) cs"
  by (auto simp add: ctx_after_def transform_chunk_ctx)

lemma finalize_all_chunks_result:
  "finalize_all_chunks buffer ctx = (out, buffer', ctx') \<Longrightarrow>
   buffer' = [] \<and> length out = length buffer \<and> ctx' = ctx_after ctx buffer \<and>
   (\<forall>k<length buffer.
      out ! k = fst (transform_chunk (buffer ! k) True (ctx_after ctx (take k buffer))))"
proof (induction buffer arbitrary: ctx out buffer' ctx')
  case Nil
  then show ?case by (simp add: finalize_all_chunks_Nil)
next
  case (Cons chunk buffer)
  obtain c1 ctx1 where t: "transform_chunk chunk True ctx = (c1, ctx1)"
    by (cases "transform_chunk chunk True ctx")
  obtain f b c where r: "finalize_all_chunks buffer ctx1 = (f, b, c)"
    by (cases "finalize_all_chunks buffer ctx1") 
  from Cons.prems t r have o: "out = c1 # f" "buffer' = b" "ctx' = c"
    by (simp_all add: finalize_all_chunks_Cons)
  from Cons.IH [OF r] have ih: "b = []" "length f = length buffer" "c = ctx_after ctx1 buffer"
    "\<And>k. k < length buffer \<Longrightarrow>
       f ! k = fst (transform_chunk (buffer ! k) True (ctx_after ctx1 (take k buffer)))"
    by simp_all
  from t have c1: "ctx_after ctx (chunk # xs) = ctx_after ctx1 xs" for xs
    using ctx_after_Cons [of ctx chunk xs True] by simp
  have "out ! k = fst (transform_chunk ((chunk # buffer) ! k) True
          (ctx_after ctx (take k (chunk # buffer))))" if "k < length (chunk # buffer)" for k
  proof (cases k)
    case 0
    with o t show ?thesis by simp
  next
    case (Suc j)
    with that have "j < length buffer" by simp
    from ih(4) [OF this] Suc o c1 show ?thesis by simp
  qed
  with o ih c1 show ?case by simp
qed

text \<open>
  Claim C8. For every buffer, \<open>_finalize_all_chunks\<close> leaves the buffer empty and yields
  one fragment per buffered chunk, in the order of the buffer: the fragment at position
  \<open>k\<close> is the chunk at position \<open>k\<close> transformed with \<open>is_last_think = True\<close>, in the
  context left by the chunks before it.
\<close>

theorem finalize_all_chunks_drains:
  assumes "finalize_all_chunks buffer ctx = (out, buffer', ctx')"
  shows "buffer' = [] \<and> length out = length buffer \<and>
         (\<forall>k<length buffer.
            out ! k = fst (transform_chunk (buffer ! k) True (ctx_after ctx (take k buffer))))"
  using finalize_all_chunks_result [OF assms] by blast

theorem finalize_all_chunks_drains_witness:
  "finalize_all_chunks [''x</think>'', ''<think>y'', ''z</think>''] new_context =
     ([''x'' @ block_close, block_open @ ''y'', ''z'' @ block_close], [],
      \<lparr>first_think_found = True\<rparr>) \<and>
   [''x'' @ block_close, block_open @ ''y'', ''z'' @ block_close] ! 2 =
     fst (transform_chunk ([''x</think>'', ''<think>y'', ''z</think>''] ! 2) True
            (ctx_after new_context (take 2 [''x</think>'', ''<think>y'', ''z</think>''])))"
proof -
  have e: "finalize_all_chunks [''x</think>'', ''<think>y'', ''z</think>''] new_context =
     ([''x'' @ block_close, block_open @ ''y'', ''z'' @ block_close], [],
      \<lparr>first_think_found = True\<rparr>)"
    by code_simp
  have k: "2 < length [''x</think>'', ''<think>y'', ''z</think>'']" by simp
  from finalize_all_chunks_drains [OF e]
  have "\<forall>k<length [''x</think>'', ''<think>y'', ''z</think>''].
          [''x'' @ block_close, block_open @ ''y'', ''z'' @ block_close] ! k =
          fst (transform_chunk ([''x</think>'', ''<think>y'', ''z</think>''] ! k) True
                 (ctx_after new_context (take k [''x</think>'', ''<think>y'', ''z</think>''])))"
    by blast
  with k e show ?thesis by blast
qed

section \<open>Partial finalization\<close>

lemma try_finalize_loop_acc:
  "try_finalize_loop partial i buffer ctx (xs @ ys) =
     (case try_finalize_loop partial i buffer ctx ys of (f, b, c) \<Rightarrow> (xs @ f, b, c))"
proof (induction partial i buffer ctx ys rule: try_finalize_loop.induct)
  case (1 partial i buffer ctx finalized)
  let ?stop = "\<not> i < length buffer \<or>
     (str_contains think_close (buffer ! i) \<and> partial \<and> length buffer \<le> i + 5)"
  show ?case
  proof (cases ?stop)
    case True
    then show ?thesis
      by (subst try_finalize_loop.simps, subst (2) try_finalize_loop.simps) auto
  next
    case False
    define l where "l = (str_contains think_close (buffer ! i) \<and>
         \<not> list_ex (str_contains think_close) (take 5 (drop i (list_pop i buffer))))"
    obtain p c1 where t: "transform_chunk (buffer ! i) l ctx = (p, c1)"
      by (cases "transform_chunk (buffer ! i) l ctx")
    have u: "try_finalize_loop partial i buffer ctx acc =
             try_finalize_loop partial i (list_pop i buffer) c1 (acc @ [p])" for acc
      using False t
      by (subst try_finalize_loop.simps) (auto simp: l_def)
    have ih: "try_finalize_loop partial i (list_pop i buffer) c1 (xs @ finalized @ [p]) =
       (case try_finalize_loop partial i (list_pop i buffer) c1 (finalized @ [p]) of
          (f, b, c) \<Rightarrow> (xs @ f, b, c))"
    proof (cases "str_contains think_close (buffer ! i)")
      case True
      with False t show ?thesis
        using "1.IH"(1) [of p c1] by (simp add: l_def)
    next
      case False
      with \<open>\<not> ?stop\<close> t show ?thesis
        using "1.IH"(2) [of p c1] by (simp add: l_def)
    qed
    show ?thesis
      using ih by (simp add: u [of "xs @ finalized"] u [of finalized])
  qed
qed

lemma try_finalize_chunks_Nil: "try_finalize_chunks [] ctx partial = ([], [], ctx)"
  by (simp add: try_finalize_chunks_def try_finalize_loop.simps)

lemma try_finalize_chunks_plain:
  "\<not> str_contains think_close chunk \<Longrightarrow>
   try_finalize_chunks (chunk # rest) ctx partial =
     (case transform_chunk chunk False ctx of
        (processed, ctx') \<Rightarrow>
          (case try_finalize_chunks rest ctx' partial of
             (finalized, buffer', ctx'') \<Rightarrow> (processed # finalized, buffer', ctx'')))"
  using try_finalize_loop_acc [of partial 0 rest _ "[_]" "[]"]
  by (simp add: try_finalize_chunks_def try_finalize_loop.simps [of _ _ "chunk # rest"]
        list_pop_def split: prod.splits)

lemma try_finalize_chunks_wait:
  "str_contains think_close chunk \<Longrightarrow> length rest < 5 \<Longrightarrow>
   try_finalize_chunks (chunk # rest) ctx True = ([], chunk # rest, ctx)"
  by (simp add: try_finalize_chunks_def try_finalize_loop.simps [of _ _ "chunk # rest"])

lemma try_finalize_chunks_decide:
  "str_contains think_close chunk \<Longrightarrow> \<not> (partial \<and> length rest < 5) \<Longrightarrow>
   try_finalize_chunks (chunk # rest) ctx partial =
     (case transform_chunk chunk (\<not> list_ex (str_contains think_close) (take 5 rest)) ctx of
        (processed, ctx') \<Rightarrow>
          (case try_finalize_chunks rest ctx' partial of
             (finalized, buffer', ctx'') \<Rightarrow> (processed # finalized, buffer', ctx'')))"
  using try_finalize_loop_acc [of partial 0 rest _ "[_]" "[]"]
  by (auto simp add: try_finalize_chunks_def try_finalize_loop.simps [of _ _ "chunk # rest"]
        list_pop_def split: prod.splits)

lemma try_finalize_chunks_suffix:
  "suffix (fst (snd (try_finalize_chunks buffer ctx partial))) buffer"
proof (induction buffer arbitrary: ctx)
  case Nil
  then show ?case by (simp add: try_finalize_chunks_Nil)
next
  case (Cons chunk rest)
  have step: "suffix (fst (snd (case transform_chunk chunk l ctx of
        (processed, ctx') \<Rightarrow>
          (case try_finalize_chunks rest ctx' partial of
             (finalized, buffer', ctx'') \<Rightarrow> (processed # finalized, buffer', ctx''))))) (chunk # rest)"
    for l
  proof -
    obtain p c1 where t: "transform_chunk chunk l ctx = (p, c1)"
      by (cases "transform_chunk chunk l ctx")
    obtain f b c2 where r: "try_finalize_chunks rest c1 partial = (f, b, c2)"
      by (cases "try_finalize_chunks rest c1 partial")
    from Cons.IH [of c1] r have "suffix b rest" by simp
    then have "suffix b (chunk # rest)" by (simp add: suffix_Cons)
    with t r show ?thesis by simp
  qed
  show ?case
  proof (cases "str_contains think_close chunk")
    case False
    with step show ?thesis by (simp add: try_finalize_chunks_plain)
  next
    case True
    show ?thesis
    proof (cases "partial \<and> length rest < 5")
      case True
      with \<open>str_contains think_close chunk\<close> show ?thesis
        by (simp add: try_finalize_chunks_wait)
    next
      case False
      show ?thesis
        unfolding try_finalize_chunks_decide [OF True False] by (rule step)
    qed
  qed
qed

text \<open>
  Claim C5. With \<open>partial = True\<close>, \<open>_try_finalize_chunks\<close> looks at the oldest chunk of
  the buffer. On an empty buffer it returns nothing. A chunk without \<open></think>\<close> is
  popped, transformed with \<open>is_last_think = False\<close> and put in front of what the scan of
  the rest returns. A chunk with \<open></think>\<close> and fewer than 5 chunks after it stops the
  scan: nothing is returned and the buffer stays as it is. A chunk with \<open></think>\<close> and
  5 or more chunks after it is popped and transformed with \<open>is_last_think\<close> true exactly
  when none of the next 5 chunks holds a \<open></think>\<close>, and the scan goes on with the rest.
  The buffer left by the call is a suffix of the buffer before it.
\<close>

theorem try_finalize_chunks_partial:
  "try_finalize_chunks buffer ctx True =
     (case buffer of
        [] \<Rightarrow> ([], [], ctx)
      | chunk # rest \<Rightarrow>
          if str_contains think_close chunk then
            if length rest < 5 then ([], buffer, ctx)
            else
              (case transform_chunk chunk
                      (\<not> list_ex (str_contains think_close) (take 5 rest)) ctx of
                 (processed, ctx') \<Rightarrow>
                   (case try_finalize_chunks rest ctx' True of
                      (finalized, buffer', ctx'') \<Rightarrow> (processed # finalized, buffer', ctx'')))
          else
            (case transform_chunk chunk False ctx of
               (processed, ctx') \<Rightarrow>
                 (case try_finalize_chunks rest ctx' True of
                    (finalized, buffer', ctx'') \<Rightarrow> (processed # finalized, buffer', ctx'')))) \<and>
   suffix (fst (snd (try_finalize_chunks buffer ctx True))) buffer"
proof (rule conjI)
  show "suffix (fst (snd (try_finalize_chunks buffer ctx True))) buffer"
    by (rule try_finalize_chunks_suffix)
next
  show "try_finalize_chunks buffer ctx True =
     (case buffer of
        [] \<Rightarrow> ([], [], ctx)
      | chunk # rest \<Rightarrow>
          if str_contains think_close chunk then
            if length rest < 5 then ([], buffer, ctx)
            else
              (case transform_chunk chunk
                      (\<not> list_ex (str_contains think_close) (take 5 rest)) ctx of
                 (processed, ctx') \<Rightarrow>
                   (case try_finalize_chunks rest ctx' True of
                      (finalized, buffer', ctx'') \<Rightarrow> (processed # finalized, buffer', ctx'')))
          else
            (case transform_chunk chunk False ctx of
               (processed, ctx') \<Rightarrow>
                 (case try_finalize_chunks rest ctx' True of
                    (finalized, buffer', ctx'') \<Rightarrow> (processed # finalized, buffer', ctx''))))"
  proof (cases buffer)
    case Nil
    then show ?thesis by (simp add: try_finalize_chunks_Nil)
  next
    case (Cons chunk rest)
    show ?thesis
    proof (cases "str_contains think_close chunk")
      case False
      with Cons show ?thesis by (simp add: try_finalize_chunks_plain)
    next
      case True
      show ?thesis
      proof (cases "length rest < 5")
        case True
        with \<open>str_contains think_close chunk\<close> Cons show ?thesis
          by (simp add: try_finalize_chunks_wait)
      next
        case False
        then have "\<not> (True \<and> length rest < 5)" by simp
        from try_finalize_chunks_decide [OF True this] False True Cons show ?thesis
          by simp
      qed
    qed
  qed
qed

section \<open>The exit paths of the stream loop\<close>

text \<open>
  Claim C2, evaluated on the code. A stream that ends with a chunk still in the buffer and
  no \<open>[DONE]\<close> line or \<open>finish_reason\<close> yields nothing for that chunk and leaves it in the
  buffer: the loop ends and no forced finalization runs. A malformed data line yields the
  JSONDecodeError payload and returns, again with the chunk left in the buffer. Another
  exception does flush the buffer before its payload.
\<close>

theorem pipe_stream_unflushed:
  "pipe_stream [Delta [] ''answer</think>''] = ([], [''answer</think>''], new_context) \<and>
   pipe_stream [Delta [] ''answer</think>'', Malformed ''{''] =
     ([JSONDecodeError ''{''], [''answer</think>''], new_context) \<and>
   pipe_stream [Delta [] ''answer</think>'', Raises] =
     ([Fragment (''answer'' @ block_close), ExceptionPayload], [], new_context)"
  by code_simp

section \<open>Occurrences of a pattern\<close>

lemma startswith_prefix: "startswith s pat = prefix pat s"
  by (induction s pat rule: startswith.induct) auto

lemma str_contains_sublist: "str_contains pat s = sublist pat s"
  unfolding str_contains_def
  by (induction s) (auto simp: startswith_prefix sublist_Cons_right)

lemma str_index_None_sublist: "str_index s pat = None \<longleftrightarrow> \<not> sublist pat s"
  using str_contains_sublist [of pat s] by (auto simp: str_contains_def)

lemma str_index_first:
  "str_index s pat = Some i \<Longrightarrow>
   i \<le> length s \<and> prefix pat (drop i s) \<and> (\<forall>j<i. \<not> prefix pat (drop j s))"
proof (induction s arbitrary: i)
  case Nil
  then show ?case by (simp split: if_splits)
next
  case (Cons c cs)
  show ?case
  proof (cases "startswith (c # cs) pat")
    case True
    with Cons.prems show ?thesis by (simp add: startswith_prefix)
  next
    case False
    with Cons.prems obtain k where k: "str_index cs pat = Some k" "i = Suc k"
      by auto
    from Cons.IH [OF k(1)] have ih: "k \<le> length cs" "prefix pat (drop k cs)"
      "\<And>j. j < k \<Longrightarrow> \<not> prefix pat (drop j cs)" by simp_all
    have "\<not> prefix pat (drop j (c # cs))" if "j < i" for j
    proof (cases j)
      case 0
      with False show ?thesis by (simp add: startswith_prefix)
    next
      case (Suc j')
      with that k(2) ih(3) [of j'] show ?thesis by simp
    qed
    with ih k(2) show ?thesis by simp
  qed
qed

lemma str_index_split:
  assumes "str_index s pat = Some i"
  shows "s = take i s @ pat @ drop (i + length pat) s"
proof -
  from str_index_first [OF assms] obtain zs where z: "drop i s = pat @ zs"
    by (auto elim: prefixE)
  then have "drop (length pat) (drop i s) = zs" by simp
  then have "zs = drop (i + length pat) s" by (simp add: add.commute)
  with z have "drop i s = pat @ drop (i + length pat) s" by simp
  then have "take i s @ drop i s = take i s @ pat @ drop (i + length pat) s" by simp
  then show ?thesis by simp
qed

lemma str_index_shielded:
  "\<forall>j<length P. \<not> prefix pat (drop j (P @ v)) \<Longrightarrow>
   str_index (P @ v) pat = map_option (\<lambda>i. length P + i) (str_index v pat)"
proof (induction P)
  case Nil
  then show ?case by (simp add: option.map_ident)
next
  case (Cons c P)
  from Cons.prems have "\<not> prefix pat (drop 0 ((c # P) @ v))" by blast
  then have n: "\<not> startswith (c # P @ v) pat" by (simp add: startswith_prefix)
  have "\<forall>j<length P. \<not> prefix pat (drop j (P @ v))"
  proof (intro allI impI)
    fix j assume "j < length P"
    then have "Suc j < length (c # P)" by simp
    with Cons.prems have "\<not> prefix pat (drop (Suc j) ((c # P) @ v))" by blast
    then show "\<not> prefix pat (drop j (P @ v))" by simp
  qed
  from Cons.IH [OF this] n show ?case
    by (simp add: option.map_comp comp_def)
qed

lemma think_loop_shielded:
  assumes "shields P think_open"
  shows "think_loop (P @ v) ctx = (P @ fst (think_loop v ctx), snd (think_loop v ctx))"
proof (induction v ctx rule: think_loop.induct)
  case (1 v ctx)
  from assms have sh: "\<forall>j<length P. \<not> prefix think_open (drop j (P @ v))"
    by (simp add: shields_def)
  note ix = str_index_shielded [OF sh]
  show ?case
  proof (cases "str_index v think_open")
    case None
    with ix show ?thesis by (simp add: think_loop.simps [of "P @ v"] think_loop.simps [of v])
  next
    case (Some idx)
    obtain v' ctx' where b: "think_body idx v ctx = (v', ctx')"
      by (cases "think_body idx v ctx")
    then have b': "think_body (length P + idx) (P @ v) ctx = (P @ v', ctx')"
      by (auto simp: think_body_def split: if_splits)
    from "1.IH" [OF Some b [symmetric]]
    have "think_loop (P @ v') ctx' = (P @ fst (think_loop v' ctx'), snd (think_loop v' ctx'))" .
    with Some ix b b' show ?thesis
      by (simp add: think_loop.simps [of "P @ v"] think_loop.simps [of v])
  qed
qed


section \<open>The loop over \<open><think>\<close>: one replacement, then deletions\<close>

lemma replacement_shield:
  assumes "str_index chunk pat = Some idx" and "pat = p # ps" and "block \<noteq> []"
    and "hd block \<notin> set pat" and "p \<notin> set block"
  shows "shields (take idx chunk @ block) pat"
  unfolding shields_def
proof (intro allI impI)
  fix v j
  assume j: "j < length (take idx chunk @ block)"
  from str_index_first [OF assms(1)] have le: "idx \<le> length chunk"
    and first: "\<And>k. k < idx \<Longrightarrow> \<not> prefix pat (drop k chunk)" by simp_all
  show "\<not> prefix pat (drop j ((take idx chunk @ block) @ v))"
  proof (cases "j < idx")
    case True
    define u where "u = drop j (take idx chunk)"
    have d: "drop j ((take idx chunk @ block) @ v) = u @ block @ v"
      using True le by (simp add: u_def)
    have c: "drop j chunk = u @ drop idx chunk"
      using True le by (metis u_def append_take_drop_id drop_append drop_eq_Nil2
          length_take less_imp_le_nat min.absorb2 diff_is_0_eq append_Nil2 drop0 drop_take)
    show ?thesis
    proof
      assume "prefix pat (drop j ((take idx chunk @ block) @ v))"
      then have "prefix pat (u @ block @ v)" by (simp only: d)
      then have "prefix pat u \<or>
          (\<exists>us. pat = u @ us \<and> prefix us (block @ v))"
        using prefix_append [of pat u "block @ v"] by blast
      moreover have "prefix pat u" if "pat = u @ []"
        using that by simp
      ultimately consider "prefix pat u"
        | us where "pat = u @ us" "prefix us (block @ v)" "us \<noteq> []"
        by blast
      then show False
      proof cases
        case 1
        then have "prefix pat (drop j chunk)" by (simp add: c)
        with first [OF True] show False by simp
      next
        case 2
        from 2(2,3) assms(3) have "hd us = hd block"
          by (cases us; cases block) auto
        with 2(3) have "hd block \<in> set us" by (cases us) auto
        moreover have "set pat = set u \<union> set us"
          using 2(1) by (metis set_append)
        ultimately have "hd block \<in> set pat" by blast
        with assms(4) show False by blast
      qed
    qed
  next
    case False
    define k where "k = j - idx"
    from False j le have k: "k < length block" by (simp add: k_def)
    have "drop j ((take idx chunk @ block) @ v) = drop k block @ v"
      using False le k by (simp add: k_def)
    also have "\<dots> = (block ! k) # drop (Suc k) block @ v"
      using k by (simp add: Cons_nth_drop_Suc)
    finally have d: "drop j ((take idx chunk @ block) @ v) =
      (block ! k) # drop (Suc k) block @ v" .
    show ?thesis
    proof
      assume "prefix pat (drop j ((take idx chunk @ block) @ v))"
      then have "prefix pat ((block ! k) # drop (Suc k) block @ v)"
        by (simp only: d)
      then have "block ! k = p" by (simp add: assms(2))
      moreover from k have "block ! k \<in> set block" by simp
      ultimately have "p \<in> set block" by simp
      with assms(5) show False by blast
    qed
  qed
qed

lemma think_open_shield:
  assumes "str_index chunk think_open = Some idx"
  shows "shields (take idx chunk @ block_open) think_open"
  by (rule replacement_shield [OF assms, of "CHR ''<''" "''think>''"])
     (simp_all add: think_open_def block_open_def)

lemma think_close_shield:
  assumes "str_index chunk think_close = Some idx"
  shows "shields (take idx chunk @ block_close) think_close"
  by (rule replacement_shield [OF assms, of "CHR ''<''" "''/think>''"])
     (simp_all add: think_close_def block_close_def)

lemma think_loop_first:
  assumes "str_index chunk think_open = Some idx" and "\<not> first_think_found ctx"
  shows "think_loop chunk ctx =
     (take idx chunk @ block_open @
        fst (think_loop (drop (idx + length think_open) chunk) (ctx\<lparr>first_think_found := True\<rparr>)),
      ctx\<lparr>first_think_found := True\<rparr>)"
proof -
  let ?post = "drop (idx + length think_open) chunk"
  let ?c = "ctx\<lparr>first_think_found := True\<rparr>"
  from assms have "think_loop chunk ctx = think_loop ((take idx chunk @ block_open) @ ?post) ?c"
    by (simp add: think_loop.simps [of chunk] think_body_def)
  also have "\<dots> = ((take idx chunk @ block_open) @ fst (think_loop ?post ?c),
      snd (think_loop ?post ?c))"
    by (rule think_loop_shielded [OF think_open_shield [OF assms(1)]])
  also have "snd (think_loop ?post ?c) = ?c" by (simp add: think_loop_found)
  finally show ?thesis by simp
qed

lemma subseq_take_drop: "i \<le> j \<Longrightarrow> subseq (take i xs @ drop j xs) xs"
proof -
  assume "i \<le> j"
  then have "drop j xs = drop (j - i) (drop i xs)" by simp
  then have "subseq (drop j xs) (drop i xs)"
    by (metis sublist_drop sublist_imp_subseq)
  then have "subseq (take i xs @ drop j xs) (take i xs @ drop i xs)"
    using list_emb_append_mono [of "(=)" "take i xs" "take i xs" "drop j xs" "drop i xs"]
    by simp
  then show ?thesis by simp
qed

lemma think_loop_deletes:
  "first_think_found ctx \<Longrightarrow> subseq (fst (think_loop chunk ctx)) chunk"
proof (induction chunk ctx rule: think_loop.induct)
  case (1 result ctx)
  show ?case
  proof (cases "str_index result think_open")
    case None
    then show ?thesis by (simp add: think_loop.simps)
  next
    case (Some idx)
    let ?r = "take idx result @ drop (idx + length think_open) result"
    from "1.prems" have b: "think_body idx result ctx = (?r, ctx)"
      by (simp add: think_body_def)
    from "1.IH" [OF Some b [symmetric] "1.prems"]
    have "subseq (fst (think_loop ?r ctx)) ?r" .
    moreover have "subseq ?r result" by (simp add: subseq_take_drop)
    ultimately have "subseq (fst (think_loop ?r ctx)) result"
      by (rule subseq_order.trans)
    with Some b show ?thesis by (simp add: think_loop.simps [of result])
  qed
qed

section \<open>What the transformer leaves of the markers\<close>

lemma think_loop_no_open: "\<not> str_contains think_open (fst (think_loop chunk ctx))"
proof (induction chunk ctx rule: think_loop.induct)
  case (1 result ctx)
  show ?case
  proof (cases "str_index result think_open")
    case None
    then show ?thesis by (simp add: think_loop.simps str_contains_def)
  next
    case (Some idx)
    obtain r' c' where b: "think_body idx result ctx = (r', c')"
      by (cases "think_body idx result ctx")
    from "1.IH" [OF Some b [symmetric]] Some b show ?thesis
      by (simp add: think_loop.simps [of result])
  qed
qed

lemma close_loop_no_close: "\<not> str_contains think_close (close_loop is_last_think result)"
proof (induction is_last_think result rule: close_loop.induct)
  case (1 is_last_think result)
  show ?case
  proof (cases "str_index result think_close")
    case None
    then show ?thesis by (simp add: close_loop.simps str_contains_def)
  next
    case (Some idx)
    from "1.IH" [OF Some] Some show ?thesis
      by (simp add: close_loop.simps [of _ result])
  qed
qed

lemma gt_gt_append:
  "sublist gt_gt (xs @ ys) \<longleftrightarrow>
     sublist gt_gt xs \<or> sublist gt_gt ys \<or> (suffix ''>'' xs \<and> prefix ''>'' ys)"
proof -
  let ?M = "\<exists>xs1 xs2. gt_gt = xs1 @ xs2 \<and> suffix xs1 xs \<and> prefix xs2 ys"
  let ?R = "suffix ''>'' xs \<and> prefix ''>'' ys"
  have 1: "sublist gt_gt xs \<or> sublist gt_gt ys \<or> ?R" if ?M
  proof -
    from that obtain xs1 xs2 where x: "gt_gt = xs1 @ xs2" "suffix xs1 xs" "prefix xs2 ys"
      by blast
    have "(xs1 = [] \<and> xs2 = gt_gt) \<or> (xs1 = ''>'' \<and> xs2 = ''>'') \<or>
          (xs1 = gt_gt \<and> xs2 = [])"
    proof (cases xs1)
      case Nil
      with x(1) [symmetric] show ?thesis by simp
    next
      case a: (Cons a as)
      with x(1) [symmetric] have 1: "a = CHR ''>''" "as @ xs2 = ''>''"
        by (simp_all add: gt_gt_def)
      show ?thesis
      proof (cases as)
        case Nil
        with a 1 show ?thesis by simp
      next
        case (Cons b bs)
        with 1 have "b = CHR ''>''" "bs = []" "xs2 = []" by simp_all
        with a 1 Cons show ?thesis by (simp add: gt_gt_def)
      qed
    qed
    then consider "xs1 = []" "xs2 = gt_gt" | "xs1 = ''>''" "xs2 = ''>''"
      | "xs1 = gt_gt" "xs2 = []"
      by blast
    then show ?thesis
    proof cases
      case 1
      with x(3) show ?thesis by auto
    next
      case 2
      with x(2,3) show ?thesis by simp
    next
      case 3
      with x(2) show ?thesis by auto
    qed
  qed
  have 2: ?M if ?R
  proof -
    from that have "gt_gt = ''>'' @ ''>'' \<and> suffix ''>'' xs \<and> prefix ''>'' ys"
      by (simp add: gt_gt_def)
    then show ?thesis by blast
  qed
  have "sublist gt_gt (xs @ ys) \<longleftrightarrow> sublist gt_gt xs \<or> sublist gt_gt ys \<or> ?M"
    by (rule sublist_append)
  with 1 2 show ?thesis by blast
qed


lemma cut_no_gt_gt:
  assumes "\<not> sublist gt_gt (pre @ pat @ post)" and "suffix ''>'' pat"
  shows "\<not> sublist gt_gt (pre @ post)"
proof -
  from assms(2) have s: "suffix ''>'' (pre @ pat)" by (simp add: suffix_append)
  from assms(1) have "\<not> sublist gt_gt ((pre @ pat) @ post)" by simp
  with s have a: "\<not> sublist gt_gt (pre @ pat)" "\<not> sublist gt_gt post" "\<not> prefix ''>'' post"
    using gt_gt_append [of "pre @ pat" post] by blast+
  from a(1) have "\<not> sublist gt_gt pre"
    using gt_gt_append [of pre pat] by blast
  with a show ?thesis
    using gt_gt_append [of pre post] by blast
qed

lemma insert_no_gt_gt:
  assumes "\<not> sublist gt_gt (pre @ pat @ post)" and "suffix ''>'' pat"
    and "CHR ''>'' \<notin> set block" and "block \<noteq> []"
  shows "\<not> sublist gt_gt (pre @ block @ post)"
proof -
  from assms(2) have s: "suffix ''>'' (pre @ pat)" by (simp add: suffix_append)
  from assms(1) have "\<not> sublist gt_gt ((pre @ pat) @ post)" by simp
  with s have a: "\<not> sublist gt_gt (pre @ pat)" "\<not> sublist gt_gt post"
    using gt_gt_append [of "pre @ pat" post] by blast+
  from a(1) have p: "\<not> sublist gt_gt pre"
    using gt_gt_append [of pre pat] by blast
  have b: "\<not> sublist gt_gt block"
  proof
    assume "sublist gt_gt block"
    then have "set gt_gt \<subseteq> set block" by (rule set_mono_sublist)
    with assms(3) show False by (simp add: gt_gt_def)
  qed
  have c1: "\<not> prefix ''>'' block"
  proof
    assume "prefix ''>'' block"
    then have "set ''>'' \<subseteq> set block" by (rule set_mono_prefix)
    with assms(3) show False by simp
  qed
  have bp: "\<not> sublist gt_gt (block @ post)"
  proof
    assume "sublist gt_gt (block @ post)"
    with b a(2) have "suffix ''>'' block"
      using gt_gt_append [of block post] by blast
    then have "set ''>'' \<subseteq> set block" by (rule set_mono_suffix)
    with assms(3) show False by simp
  qed
  have c3: "\<not> prefix ''>'' (block @ post)"
  proof
    assume "prefix ''>'' (block @ post)"
    with assms(4) have "hd block = CHR ''>''" by (cases block) auto
    with assms(4) have "CHR ''>'' \<in> set block" by (cases block) auto
    with assms(3) show False by simp
  qed
  from p bp c3 show ?thesis
    using gt_gt_append [of pre "block @ post"] by blast
qed

lemma suffix_gt_open: "suffix ''>'' think_open"
  unfolding think_open_def suffix_def by (rule exI [of _ "''<think''"]) simp

lemma suffix_gt_close: "suffix ''>'' think_close"
  unfolding think_close_def suffix_def by (rule exI [of _ "''</think''"]) simp

lemma think_body_gt_gt:
  assumes "str_index result think_open = Some idx" and "\<not> sublist gt_gt result"
  shows "\<not> sublist gt_gt (fst (think_body idx result ctx))"
proof -
  let ?pre = "take idx result" and ?post = "drop (idx + length think_open) result"
  from str_index_split [OF assms(1)] assms(2)
  have n: "\<not> sublist gt_gt (?pre @ think_open @ ?post)" by simp
  have "\<not> sublist gt_gt (?pre @ ?post)"
    by (rule cut_no_gt_gt [OF n suffix_gt_open])
  moreover have "\<not> sublist gt_gt (?pre @ block_open @ ?post)"
    by (rule insert_no_gt_gt [OF n suffix_gt_open]) (simp_all add: block_open_def)
  ultimately show ?thesis by (simp add: think_body_def)
qed

lemma close_body_gt_gt:
  assumes "str_index result think_close = Some idx" and "\<not> sublist gt_gt result"
  shows "\<not> sublist gt_gt (close_body idx is_last_think result)"
proof -
  let ?pre = "take idx result" and ?post = "drop (idx + length think_close) result"
  from str_index_split [OF assms(1)] assms(2)
  have n: "\<not> sublist gt_gt (?pre @ think_close @ ?post)" by simp
  have "\<not> sublist gt_gt (?pre @ ?post)"
    by (rule cut_no_gt_gt [OF n suffix_gt_close])
  moreover have "\<not> sublist gt_gt (?pre @ block_close @ ?post)"
    by (rule insert_no_gt_gt [OF n suffix_gt_close]) (simp_all add: block_close_def)
  ultimately show ?thesis by (simp add: close_body_def)
qed

lemma think_loop_gt_gt:
  "\<not> sublist gt_gt chunk \<Longrightarrow> \<not> sublist gt_gt (fst (think_loop chunk ctx))"
proof (induction chunk ctx rule: think_loop.induct)
  case (1 result ctx)
  show ?case
  proof (cases "str_index result think_open")
    case None
    with "1.prems" show ?thesis by (simp add: think_loop.simps)
  next
    case (Some idx)
    obtain r' c' where b: "think_body idx result ctx = (r', c')"
      by (cases "think_body idx result ctx")
    from think_body_gt_gt [OF Some "1.prems", of ctx] b have "\<not> sublist gt_gt r'" by simp
    from "1.IH" [OF Some b [symmetric] this] Some b show ?thesis
      by (simp add: think_loop.simps [of result])
  qed
qed

lemma close_loop_gt_gt:
  "\<not> sublist gt_gt result \<Longrightarrow> \<not> sublist gt_gt (close_loop is_last_think result)"
proof (induction is_last_think result rule: close_loop.induct)
  case (1 is_last_think result)
  show ?case
  proof (cases "str_index result think_close")
    case None
    with "1.prems" show ?thesis by (simp add: close_loop.simps)
  next
    case (Some idx)
    from "1.IH" [OF Some close_body_gt_gt [OF Some "1.prems"]] Some show ?thesis
      by (simp add: close_loop.simps [of _ result])
  qed
qed

text \<open>The equations of \<open>str_replace\<close> for a removal.\<close>

lemma str_replace_Nil: "old \<noteq> [] \<Longrightarrow> str_replace [] old new = []"
  by (simp add: str_replace.simps)

lemma str_replace_match:
  "old \<noteq> [] \<Longrightarrow> prefix old s \<Longrightarrow>
   str_replace s old new = new @ str_replace (drop (length old) s) old new"
  by (subst str_replace.simps) (auto simp: startswith_prefix split: list.splits)

lemma str_replace_skip:
  "old \<noteq> [] \<Longrightarrow> \<not> prefix old (c # cs) \<Longrightarrow>
   str_replace (c # cs) old new = c # str_replace cs old new"
  by (simp add: str_replace.simps [of "c # cs"] startswith_prefix)

lemma gt_gt_drop: "\<not> sublist gt_gt s \<Longrightarrow> \<not> sublist gt_gt (drop n s)"
  using sublist_drop [of n s] sublist_order.order.trans by blast

lemma gt_gt_Cons:
  "sublist gt_gt (c # cs) \<longleftrightarrow> (c = CHR ''>'' \<and> prefix ''>'' cs) \<or> sublist gt_gt cs"
  by (auto simp: sublist_Cons_right gt_gt_def)

text \<open>
  Removing a pattern that ends in \<open>>\<close> from a text without \<open>>>\<close> cannot bring a \<open>>\<close>
  to the front that was not there.
\<close>

lemma str_replace_front:
  assumes "suffix ''>'' pat"
  shows "\<not> sublist gt_gt s \<Longrightarrow> prefix ''>'' (str_replace s pat []) \<Longrightarrow> prefix ''>'' s"
proof (induction s rule: length_induct)
  case (1 s)
  from assms have ne: "pat \<noteq> []" by auto
  show ?case
  proof (cases s)
    case Nil
    with "1.prems"(2) ne show ?thesis by (simp add: str_replace_Nil)
  next
    case (Cons c cs)
    show ?thesis
    proof (cases "prefix pat s")
      case True
      then obtain rest where r: "s = pat @ rest" by (auto elim: prefixE)
      then have d: "drop (length pat) s = rest" by simp
      from ne r have "length rest < length s" by simp
      moreover from "1.prems"(1) have "\<not> sublist gt_gt rest"
        using gt_gt_drop [of s "length pat"] d by simp
      moreover from "1.prems"(2) True ne d have "prefix ''>'' (str_replace rest pat [])"
        by (simp add: str_replace_match)
      ultimately have "prefix ''>'' rest" using "1.IH" by blast
      with assms have "sublist gt_gt (pat @ rest)"
        using gt_gt_append [of pat rest] by blast
      with r "1.prems"(1) show ?thesis by simp
    next
      case False
      with Cons ne "1.prems"(2) show ?thesis by (simp add: str_replace_skip)
    qed
  qed
qed

lemma str_replace_gt_gt:
  assumes "suffix ''>'' pat"
  shows "\<not> sublist gt_gt s \<Longrightarrow> \<not> sublist gt_gt (str_replace s pat [])"
proof (induction s rule: length_induct)
  case (1 s)
  from assms have ne: "pat \<noteq> []" by auto
  show ?case
  proof (cases s)
    case Nil
    with ne show ?thesis by (simp add: str_replace_Nil gt_gt_def)
  next
    case (Cons c cs)
    show ?thesis
    proof (cases "prefix pat s")
      case True
      then obtain rest where r: "s = pat @ rest" by (auto elim: prefixE)
      then have d: "drop (length pat) s = rest" by simp
      from ne r have "length rest < length s" by simp
      moreover from "1.prems" have "\<not> sublist gt_gt rest"
        using gt_gt_drop [of s "length pat"] d by simp
      ultimately have "\<not> sublist gt_gt (str_replace rest pat [])" using "1.IH" by blast
      with True ne d show ?thesis by (simp add: str_replace_match)
    next
      case False
      from "1.prems" Cons have cs: "\<not> sublist gt_gt cs" by (simp add: gt_gt_Cons)
      with Cons have ih: "\<not> sublist gt_gt (str_replace cs pat [])" using "1.IH" by simp
      have "\<not> (c = CHR ''>'' \<and> prefix ''>'' (str_replace cs pat []))"
      proof
        assume a: "c = CHR ''>'' \<and> prefix ''>'' (str_replace cs pat [])"
        with str_replace_front [OF assms cs] have "prefix ''>'' cs" by blast
        with a have "sublist gt_gt (c # cs)" by (simp add: gt_gt_Cons)
        with "1.prems" Cons show False by simp
      qed
      with ih False Cons ne show ?thesis by (simp add: str_replace_skip gt_gt_Cons)
    qed
  qed
qed

lemma k_gt_Cons:
  "sublist k_gt (c # cs) \<longleftrightarrow> (c = CHR ''k'' \<and> prefix ''>'' cs) \<or> sublist k_gt cs"
  by (auto simp: sublist_Cons_right k_gt_def)

lemma str_replace_k_gt:
  "\<not> sublist gt_gt s \<Longrightarrow> \<not> sublist k_gt (str_replace s k_gt [])"
proof (induction s rule: length_induct)
  case (1 s)
  have ne: "k_gt \<noteq> []" by (simp add: k_gt_def)
  have sf: "suffix ''>'' k_gt"
    unfolding k_gt_def suffix_def by (rule exI [of _ "''k''"]) simp
  show ?case
  proof (cases s)
    case Nil
    with ne show ?thesis by (simp add: str_replace_Nil k_gt_def)
  next
    case (Cons c cs)
    show ?thesis
    proof (cases "prefix k_gt s")
      case True
      then obtain rest where r: "s = k_gt @ rest" by (auto elim: prefixE)
      then have d: "drop (length k_gt) s = rest" by simp
      from ne r have "length rest < length s" by simp
      moreover from "1.prems" have "\<not> sublist gt_gt rest"
        using gt_gt_drop [of s "length k_gt"] d by simp
      ultimately have "\<not> sublist k_gt (str_replace rest k_gt [])" using "1.IH" by blast
      with True ne d show ?thesis by (simp add: str_replace_match)
    next
      case False
      from "1.prems" Cons have cs: "\<not> sublist gt_gt cs" by (simp add: gt_gt_Cons)
      with Cons have ih: "\<not> sublist k_gt (str_replace cs k_gt [])" using "1.IH" by simp
      have "\<not> (c = CHR ''k'' \<and> prefix ''>'' (str_replace cs k_gt []))"
      proof
        assume a: "c = CHR ''k'' \<and> prefix ''>'' (str_replace cs k_gt [])"
        with str_replace_front [OF sf cs] have "prefix ''>'' cs" by blast
        with a have "prefix k_gt (c # cs)" by (auto simp: k_gt_def prefix_def)
        with False Cons show False by simp
      qed
      with ih False Cons ne show ?thesis by (simp add: str_replace_skip k_gt_Cons)
    qed
  qed
qed

lemma remove_fragments_no_k_gt:
  assumes "\<not> sublist gt_gt s"
  shows "\<not> sublist k_gt (remove_fragments s)"
proof -
  have sf: "suffix ''>'' (p @ ''>'')" for p :: string
    by (simp add: suffix_def)
  let ?r1 = "str_replace s ''/think>'' []"
  let ?r2 = "str_replace ?r1 ''think>'' []"
  let ?r3 = "str_replace ?r2 ''hink>'' []"
  let ?r4 = "str_replace ?r3 ''ink>'' []"
  let ?r5 = "str_replace ?r4 ''nk>'' []"
  have 1: "\<not> sublist gt_gt ?r1"
    using str_replace_gt_gt [OF sf [of "''/think''"] assms] by simp
  have 2: "\<not> sublist gt_gt ?r2"
    using str_replace_gt_gt [OF sf [of "''think''"] 1] by simp
  have 3: "\<not> sublist gt_gt ?r3"
    using str_replace_gt_gt [OF sf [of "''hink''"] 2] by simp
  have 4: "\<not> sublist gt_gt ?r4"
    using str_replace_gt_gt [OF sf [of "''ink''"] 3] by simp
  have 5: "\<not> sublist gt_gt ?r5"
    using str_replace_gt_gt [OF sf [of "''nk''"] 4] by simp
  have "remove_fragments s = str_replace ?r5 k_gt []"
    by (simp add: remove_fragments_def fragments_def k_gt_def)
  with str_replace_k_gt [OF 5] show ?thesis by simp
qed

lemma transform_chunk_no_k_gt:
  assumes "\<not> str_contains ''>>'' chunk"
  shows "\<not> str_contains ''k>'' (fst (transform_chunk chunk is_last_think ctx))"
proof -
  from assms have g: "\<not> sublist gt_gt chunk"
    by (simp add: str_contains_sublist gt_gt_def)
  obtain r c where t: "think_loop chunk ctx = (r, c)" by (cases "think_loop chunk ctx")
  with think_loop_gt_gt [OF g, of ctx] have "\<not> sublist gt_gt r" by simp
  then have "\<not> sublist gt_gt (close_loop is_last_think r)" by (rule close_loop_gt_gt)
  then have "\<not> sublist k_gt (remove_fragments (close_loop is_last_think r))"
    by (rule remove_fragments_no_k_gt)
  with t show ?thesis
    by (simp add: transform_chunk_def str_contains_sublist k_gt_def)
qed

lemma k_gt_in_marker:
  assumes "p \<in> set (think_open # think_close # fragments)"
  shows "sublist ''k>'' p"
proof -
  have "suffix ''k>'' (q @ ''k>'')" for q :: string by (simp add: suffix_def)
  from this [of "''<thin''"] this [of "''</thin''"] this [of "''/thin''"] this [of "''thin''"]
    this [of "''hin''"] this [of "''in''"] this [of "''n''"] this [of "''''"]
  have "suffix ''k>'' p"
    using assms by (auto simp: think_open_def think_close_def fragments_def)
  then show ?thesis by (rule suffix_imp_sublist)
qed

lemma no_gt_unchanged:
  assumes "CHR ''>'' \<notin> set chunk"
  shows "transform_chunk chunk is_last_think ctx = (chunk, ctx)"
proof -
  have n: "str_index chunk p = None" if "CHR ''>'' \<in> set p" for p
  proof -
    have "\<not> sublist p chunk"
    proof
      assume "sublist p chunk"
      then have "set p \<subseteq> set chunk" by (rule set_mono_sublist)
      with that assms show False by blast
    qed
    then show ?thesis by (simp add: str_index_None_sublist)
  qed
  have o: "str_index chunk think_open = None" by (rule n) (simp add: think_open_def)
  have c: "str_index chunk think_close = None" by (rule n) (simp add: think_close_def)
  have "\<forall>p \<in> set fragments. \<not> str_contains p chunk"
    using n by (simp add: fragments_def str_contains_def)
  then have "remove_fragments chunk = chunk" by (rule remove_fragments_absent)
  with o c show ?thesis
    by (simp add: transform_chunk_def think_loop_absent close_loop_absent)
qed

text \<open>
  Claim C3 as the code has it. The loop over \<open><think>\<close> ends with no \<open><think>\<close> in the
  text and the loop over \<open></think>\<close> with no \<open></think>\<close>. For a chunk in which no two
  \<open>>\<close> characters are adjacent, the fragment returned holds neither marker and none of
  the fragments \<open>/think>\<close>, \<open>think>\<close>, \<open>hink>\<close>, \<open>ink>\<close>, \<open>nk>\<close>, \<open>k>\<close>. The leading
  part of a marker torn across two chunks is not looked for: a chunk without \<open>>\<close>, such
  as \<open>x</thi\<close>, is returned as it is.
\<close>

theorem transform_chunk_markers:
  "\<not> str_contains think_open (fst (think_loop chunk ctx)) \<and>
   \<not> str_contains think_close (close_loop is_last_think result) \<and>
   (\<not> str_contains ''>>'' chunk \<longrightarrow>
      (\<forall>p \<in> set (think_open # think_close # fragments).
         \<not> str_contains p (fst (transform_chunk chunk is_last_think ctx)))) \<and>
   (CHR ''>'' \<notin> set part \<longrightarrow> transform_chunk part is_last_think ctx = (part, ctx))"
proof (intro conjI impI ballI)
  show "\<not> str_contains think_open (fst (think_loop chunk ctx))"
    by (rule think_loop_no_open)
  show "\<not> str_contains think_close (close_loop is_last_think result)"
    by (rule close_loop_no_close)
  show "transform_chunk part is_last_think ctx = (part, ctx)" if "CHR ''>'' \<notin> set part"
    using that by (rule no_gt_unchanged)
  fix p
  assume g: "\<not> str_contains ''>>'' chunk"
    and p: "p \<in> set (think_open # think_close # fragments)"
  let ?out = "fst (transform_chunk chunk is_last_think ctx)"
  show "\<not> str_contains p ?out"
  proof
    assume "str_contains p ?out"
    then have "sublist p ?out" by (simp add: str_contains_sublist)
    with k_gt_in_marker [OF p] have "sublist ''k>'' ?out"
      by (rule sublist_order.order.trans)
    then have "str_contains ''k>'' ?out" by (simp add: str_contains_sublist)
    with transform_chunk_no_k_gt [OF g] show False by blast
  qed
qed

theorem transform_chunk_markers_witness:
  "\<not> str_contains ''>>'' ''a<think>b</think>c/think>d'' \<and>
   CHR ''>'' \<notin> set ''x</thi'' \<and>
   list_all (\<lambda>p. \<not> str_contains p (fst (transform_chunk ''a<think>b</think>c/think>d'' True new_context)))
     (think_open # think_close # fragments) \<and>
   transform_chunk ''x</thi'' True new_context = (''x</thi'', new_context) \<and>
   transform_chunk ''a<think>b</think>c/think>d'' True new_context =
     (''a'' @ block_open @ ''b'' @ block_close @ ''cd'', \<lparr>first_think_found = True\<rparr>)"
proof -
  have a: "\<not> str_contains ''>>'' ''a<think>b</think>c/think>d''" by code_simp
  have b: "CHR ''>'' \<notin> set ''x</thi''" by simp
  have c: "transform_chunk ''a<think>b</think>c/think>d'' True new_context =
     (''a'' @ block_open @ ''b'' @ block_close @ ''cd'', \<lparr>first_think_found = True\<rparr>)"
    by code_simp
  from a b transform_chunk_markers
    [of "''a<think>b</think>c/think>d''" new_context True "''''" "''x</thi''"]
  show ?thesis by (simp add: list_all_iff c)
qed

text \<open>
  Claim C3 as stated fails on a torn marker: the chunks \<open>x</thi\<close> and \<open>nk>y\<close> (or
  \<open>x<thi\<close> and \<open>nk>y\<close>) give the fragments \<open>x</thi\<close> (or \<open>x<thi\<close>) and \<open>y\<close>, so the
  first half of the marker is in the output.
\<close>

theorem torn_marker_counterexample:
  "fst (pipe_stream [Delta [] ''x</thi'', Delta [] ''nk>y'', Done]) =
     [Fragment ''x</thi'', Fragment ''y''] \<and>
   fst (pipe_stream [Delta [] ''x<thi'', Delta [] ''nk>y'', Done]) =
     [Fragment ''x<thi'', Fragment ''y'']"
  by code_simp

section \<open>Applying the transformer to its own output\<close>

text \<open>
  The fragment returned for a chunk without two adjacent \<open>>\<close> characters holds no marker
  and no fragment, so transforming it again, with any flags, returns it unchanged.
\<close>

lemma transform_chunk_twice_no_gt_gt:
  assumes "\<not> str_contains ''>>'' chunk"
  shows "transform_chunk (fst (transform_chunk chunk is_last_think ctx)) is_last_think ctx' =
           (fst (transform_chunk chunk is_last_think ctx), ctx')"
proof -
  let ?out = "fst (transform_chunk chunk is_last_think ctx)"
  have n: "\<not> str_contains p ?out" if "p \<in> set (think_open # think_close # fragments)" for p
  proof
    assume "str_contains p ?out"
    then have "sublist p ?out" by (simp add: str_contains_sublist)
    with k_gt_in_marker [OF that] have "sublist ''k>'' ?out"
      by (rule sublist_order.order.trans)
    then have "str_contains ''k>'' ?out" by (simp add: str_contains_sublist)
    with transform_chunk_no_k_gt [OF assms] show False by blast
  qed
  from n have "\<forall>p \<in> set fragments. \<not> str_contains p ?out" by simp
  then have "remove_fragments ?out = ?out" by (rule remove_fragments_absent)
  moreover from n [of think_open] have "str_index ?out think_open = None"
    by (simp add: str_contains_def)
  moreover from n [of think_close] have "str_index ?out think_close = None"
    by (simp add: str_contains_def)
  ultimately show ?thesis
    by (simp add: transform_chunk_def [of ?out] think_loop_absent close_loop_absent)
qed

text \<open>
  Claim C4, evaluated on the code. The chunk \<open>kk>>\<close> is transformed to \<open>k>\<close>: the one
  pass of \<open>replace("k>", "")\<close> removes the inner \<open>k>\<close> and thereby puts a new one
  together. Transformed again, with the same flags, \<open>k>\<close> becomes the empty string.
\<close>

theorem transform_chunk_twice_differs:
  "transform_chunk ''kk>>'' False new_context = (''k>'', new_context) \<and>
   transform_chunk ''k>'' False new_context = ([], new_context)"
  by code_simp

section \<open>A whole stream\<close>

lemma length_stream_fragments: "length (stream_fragments w cs ctx) = length cs"
  by (induction cs arbitrary: w ctx) (auto split: prod.splits)

lemma stream_fragments_forced:
  "stream_fragments True cs ctx = fst (finalize_all_chunks cs ctx)"
proof (induction cs arbitrary: ctx)
  case Nil
  show ?case by (simp add: finalize_all_chunks_Nil)
next
  case (Cons c cs)
  obtain p c1 where t: "transform_chunk c True ctx = (p, c1)"
    by (cases "transform_chunk c True ctx")
  obtain f b c2 where r: "finalize_all_chunks cs c1 = (f, b, c2)"
    by (cases "finalize_all_chunks cs c1")
  from Cons.IH [of c1] r have "stream_fragments True cs c1 = f" by simp
  with t r show ?case by (simp add: finalize_all_chunks_Cons)
qed

lemma try_finalize_chunks_stream:
  "try_finalize_chunks xs ctx True = (fin, b, c) \<Longrightarrow>
   stream_fragments False (xs @ cs) ctx = fin @ stream_fragments False (b @ cs) c"
proof (induction xs arbitrary: ctx fin b c)
  case Nil
  then show ?case by (simp add: try_finalize_chunks_Nil)
next
  case (Cons x xs)
  show ?case
  proof (cases "str_contains think_close x")
    case False
    obtain p c1 where t: "transform_chunk x False ctx = (p, c1)"
      by (cases "transform_chunk x False ctx")
    obtain f b1 c2 where r: "try_finalize_chunks xs c1 True = (f, b1, c2)"
      by (cases "try_finalize_chunks xs c1 True")
    from Cons.prems t r False have e: "fin = p # f" "b = b1" "c = c2"
      by (simp_all add: try_finalize_chunks_plain)
    from Cons.IH [OF r] e t False show ?thesis by simp
  next
    case True
    show ?thesis
    proof (cases "length xs < 5")
      case short: True
      with True Cons.prems have "fin = []" "b = x # xs" "c = ctx"
        by (simp_all add: try_finalize_chunks_wait)
      then show ?thesis by simp
    next
      case long: False
      let ?l = "\<not> list_ex (str_contains think_close) (take 5 xs)"
      obtain p c1 where t: "transform_chunk x ?l ctx = (p, c1)"
        by (cases "transform_chunk x ?l ctx")
      obtain f b1 c2 where r: "try_finalize_chunks xs c1 True = (f, b1, c2)"
        by (cases "try_finalize_chunks xs c1 True")
      from long have "\<not> (True \<and> length xs < 5)" by simp
      from try_finalize_chunks_decide [OF True this, of ctx] Cons.prems t r
      have e: "fin = p # f" "b = b1" "c = c2" by simp_all
      from Cons.IH [OF r] e t True long show ?thesis by simp
    qed
  qed
qed

lemma try_finalize_chunks_left:
  "try_finalize_chunks xs ctx True = (fin, b, c) \<Longrightarrow>
   b = [] \<or> (str_contains think_close (hd b) \<and> length b \<le> 5)"
proof (induction xs arbitrary: ctx fin b c)
  case Nil
  then show ?case by (simp add: try_finalize_chunks_Nil)
next
  case (Cons x xs)
  show ?case
  proof (cases "str_contains think_close x")
    case False
    obtain p c1 where t: "transform_chunk x False ctx = (p, c1)"
      by (cases "transform_chunk x False ctx")
    obtain f b1 c2 where r: "try_finalize_chunks xs c1 True = (f, b1, c2)"
      by (cases "try_finalize_chunks xs c1 True")
    from Cons.prems t r False have "b = b1" by (simp add: try_finalize_chunks_plain)
    with Cons.IH [OF r] show ?thesis by simp
  next
    case True
    show ?thesis
    proof (cases "length xs < 5")
      case short: True
      with True Cons.prems have "b = x # xs" by (simp add: try_finalize_chunks_wait)
      with True short show ?thesis by simp
    next
      case long: False
      let ?l = "\<not> list_ex (str_contains think_close) (take 5 xs)"
      obtain p c1 where t: "transform_chunk x ?l ctx = (p, c1)"
        by (cases "transform_chunk x ?l ctx")
      obtain f b1 c2 where r: "try_finalize_chunks xs c1 True = (f, b1, c2)"
        by (cases "try_finalize_chunks xs c1 True")
      from long have "\<not> (True \<and> length xs < 5)" by simp
      from try_finalize_chunks_decide [OF True this, of ctx] Cons.prems t r
      have "b = b1" by simp
      with Cons.IH [OF r] show ?thesis by simp
    qed
  qed
qed

lemma stream_fragments_left:
  assumes "b = [] \<or> (str_contains think_close (hd b) \<and> length b \<le> 5)"
  shows "stream_fragments False b ctx = fst (finalize_all_chunks b ctx)"
proof (cases b)
  case Nil
  then show ?thesis by (simp add: finalize_all_chunks_Nil)
next
  case (Cons x xs)
  with assms have x: "str_contains think_close x" "length xs < 5" by simp_all
  obtain p c1 where t: "transform_chunk x True ctx = (p, c1)"
    by (cases "transform_chunk x True ctx")
  from x t Cons show ?thesis
    using stream_fragments_forced [of xs c1]
    by (simp add: finalize_all_chunks_Cons split: prod.splits)
qed

lemma pipe_lines_stream:
  assumes "b = [] \<or> (str_contains think_close (hd b) \<and> length b \<le> 5)"
  shows "fst (pipe_lines (map (Delta []) cs @ [Done]) b ctx) =
           map Fragment (stream_fragments False (b @ cs) ctx) \<and>
         fst (snd (pipe_lines (map (Delta []) cs @ [Done]) b ctx)) = []"
  using assms
proof (induction cs arbitrary: b ctx)
  case Nil
  obtain f b1 c1 where r: "finalize_all_chunks b ctx = (f, b1, c1)"
    by (cases "finalize_all_chunks b ctx")
  from finalize_all_chunks_result [OF r] have "b1 = []" by simp
  with r stream_fragments_left [OF Nil.prems, of ctx] show ?case by simp
next
  case (Cons x cs)
  obtain fin b1 c1 where t: "try_finalize_chunks (b @ [x]) ctx True = (fin, b1, c1)"
    by (cases "try_finalize_chunks (b @ [x]) ctx True")
  from try_finalize_chunks_left [OF t]
  have inv: "b1 = [] \<or> (str_contains think_close (hd b1) \<and> length b1 \<le> 5)" .
  from try_finalize_chunks_stream [OF t, of cs]
  have s: "stream_fragments False (b @ x # cs) ctx = fin @ stream_fragments False (b1 @ cs) c1"
    by simp
  obtain ys b2 c2 where r: "pipe_lines (map (Delta []) cs @ [Done]) b1 c1 = (ys, b2, c2)"
    by (cases "pipe_lines (map (Delta []) cs @ [Done]) b1 c1")
  from Cons.IH [OF inv, of c1] r
  have "ys = map Fragment (stream_fragments False (b1 @ cs) c1)" "b2 = []" by simp_all
  with t s r show ?case by simp
qed

lemma stream_fragments_nth:
  "k < length cs \<Longrightarrow>
   \<exists>l. stream_fragments w cs ctx ! k =
         fst (transform_chunk (cs ! k) l (ctx_after ctx (take k cs))) \<and>
       (str_contains think_close (cs ! k) \<longrightarrow>
          l = (w \<or> length cs \<le> k + 5 \<or>
               \<not> list_ex (str_contains think_close) (take 5 (drop (Suc k) cs))))"
proof (induction cs arbitrary: w ctx k)
  case Nil
  then show ?case by simp
next
  case (Cons c rest)
  let ?w' = "w \<or> (str_contains think_close c \<and> length rest < 5)"
  let ?l = "w \<or> (str_contains think_close c \<and>
              (length rest < 5 \<or> \<not> list_ex (str_contains think_close) (take 5 rest)))"
  obtain p c1 where t: "transform_chunk c ?l ctx = (p, c1)"
    by (cases "transform_chunk c ?l ctx")
  have s: "stream_fragments w (c # rest) ctx = p # stream_fragments ?w' rest c1"
    using t by simp
  show ?case
  proof (cases k)
    case 0
    have "stream_fragments w (c # rest) ctx ! 0 =
        fst (transform_chunk ((c # rest) ! 0) ?l (ctx_after ctx (take 0 (c # rest))))"
      using s t by simp
    moreover have "str_contains think_close ((c # rest) ! 0) \<longrightarrow>
        ?l = (w \<or> length (c # rest) \<le> 0 + 5 \<or>
           \<not> list_ex (str_contains think_close) (take 5 (drop (Suc 0) (c # rest))))"
      by auto
    ultimately show ?thesis unfolding 0 by blast
  next
    case (Suc j)
    with Cons.prems have j: "j < length rest" by simp
    from Cons.IH [OF j, of ?w' c1] obtain l where
      l: "stream_fragments ?w' rest c1 ! j =
            fst (transform_chunk (rest ! j) l (ctx_after c1 (take j rest)))"
      and lc: "str_contains think_close (rest ! j) \<longrightarrow>
          l = (?w' \<or> length rest \<le> j + 5 \<or>
               \<not> list_ex (str_contains think_close) (take 5 (drop (Suc j) rest)))"
      by blast
    have c1: "ctx_after ctx (take (Suc j) (c # rest)) = ctx_after c1 (take j rest)"
      using ctx_after_Cons [of ctx c "take j rest" ?l] t by simp
    have "stream_fragments w (c # rest) ctx ! Suc j =
        fst (transform_chunk ((c # rest) ! Suc j) l (ctx_after ctx (take (Suc j) (c # rest))))"
      using s l c1 by simp
    moreover have "str_contains think_close ((c # rest) ! Suc j) \<longrightarrow>
        l = (w \<or> length (c # rest) \<le> Suc j + 5 \<or>
           \<not> list_ex (str_contains think_close) (take 5 (drop (Suc (Suc j)) (c # rest))))"
      using lc by auto
    ultimately show ?thesis unfolding Suc by blast
  qed
qed

lemma pipe_stream_fragments:
  "fst (pipe_stream (map (Delta []) cs @ [Done])) =
     map Fragment (stream_fragments False cs new_context)"
  using pipe_lines_stream [of "[]" cs new_context] by (simp add: pipe_stream_def)

lemma pipe_stream_closers:
  assumes "k < length cs"
  shows "length (fst (pipe_stream (map (Delta []) cs @ [Done]))) = length cs \<and>
    fst (snd (pipe_stream (map (Delta []) cs @ [Done]))) = [] \<and>
    (\<exists>l. fst (pipe_stream (map (Delta []) cs @ [Done])) ! k =
            Fragment (fst (transform_chunk (cs ! k) l (ctx_after new_context (take k cs)))) \<and>
          (str_contains think_close (cs ! k) \<longrightarrow>
             l = (length cs \<le> k + 5 \<or>
                  \<not> list_ex (str_contains think_close) (take 5 (drop (Suc k) cs)))))"
proof -
  from stream_fragments_nth [OF assms, of False new_context] obtain l where
    l: "stream_fragments False cs new_context ! k =
         fst (transform_chunk (cs ! k) l (ctx_after new_context (take k cs)))"
    and lc: "str_contains think_close (cs ! k) \<longrightarrow>
          l = (length cs \<le> k + 5 \<or>
               \<not> list_ex (str_contains think_close) (take 5 (drop (Suc k) cs)))"
    by auto
  have len: "length (stream_fragments False cs new_context) = length cs"
    by (rule length_stream_fragments)
  from l assms len have "fst (pipe_stream (map (Delta []) cs @ [Done])) ! k =
      Fragment (fst (transform_chunk (cs ! k) l (ctx_after new_context (take k cs))))"
    by (simp add: pipe_stream_fragments)
  with lc have "\<exists>l. fst (pipe_stream (map (Delta []) cs @ [Done])) ! k =
            Fragment (fst (transform_chunk (cs ! k) l (ctx_after new_context (take k cs)))) \<and>
          (str_contains think_close (cs ! k) \<longrightarrow>
             l = (length cs \<le> k + 5 \<or>
                  \<not> list_ex (str_contains think_close) (take 5 (drop (Suc k) cs))))"
    by blast
  moreover have "length (fst (pipe_stream (map (Delta []) cs @ [Done]))) = length cs"
    by (simp add: pipe_stream_fragments len)
  moreover have "fst (snd (pipe_stream (map (Delta []) cs @ [Done]))) = []"
    using pipe_lines_stream [of "[]" cs new_context] by (simp add: pipe_stream_def)
  ultimately show ?thesis by blast
qed

section \<open>Which closing marker is decorated\<close>

lemma no_later_closer:
  assumes "\<forall>j. k < j \<and> j < length cs \<longrightarrow> \<not> str_contains think_close (cs ! j)"
  shows "\<not> list_ex (str_contains think_close) (take 5 (drop (Suc k) cs))"
proof
  assume "list_ex (str_contains think_close) (take 5 (drop (Suc k) cs))"
  then obtain x where x: "x \<in> set (take 5 (drop (Suc k) cs))" "str_contains think_close x"
    by (auto simp: list_ex_iff)
  from x(1) have "x \<in> set (drop (Suc k) cs)" by (rule in_set_takeD)
  then obtain i where i: "i < length (drop (Suc k) cs)" "drop (Suc k) cs ! i = x"
    by (auto simp: in_set_conv_nth)
  then have "k < Suc k + i" "Suc k + i < length cs" "cs ! (Suc k + i) = x"
    by simp_all
  with assms x(2) show False by blast
qed

text \<open>
  Claim C1 as the code has it. A stream of chunks followed by \<open>[DONE]\<close> yields one
  fragment per chunk, in order. A chunk holding a \<open></think>\<close> is transformed with
  \<open>is_last_think\<close> true, so that its \<open></think>\<close> become the block-close decoration, unless
  at least 5 chunks follow it in the stream and one of the next 5 holds a \<open></think>\<close>; only
  then are its \<open></think>\<close> deleted. So the chunk with the last \<open></think>\<close> of the stream
  is always transformed with \<open>is_last_think\<close> true, and so is every earlier one that has
  fewer than 5 chunks after it or no \<open></think>\<close> among the next 5. For the chunks
  \<open>a</think>b\<close> and \<open>c</think>d\<close> both fragments carry the decoration.
\<close>

theorem pipe_stream_last_closer:
  assumes "k < length cs" and "str_contains think_close (cs ! k)"
  shows "length (fst (pipe_stream (map (Delta []) cs @ [Done]))) = length cs \<and>
    fst (pipe_stream (map (Delta []) cs @ [Done])) ! k =
      Fragment (fst (transform_chunk (cs ! k)
        (length cs \<le> k + 5 \<or> \<not> list_ex (str_contains think_close) (take 5 (drop (Suc k) cs)))
        (ctx_after new_context (take k cs)))) \<and>
    ((\<forall>j. k < j \<and> j < length cs \<longrightarrow> \<not> str_contains think_close (cs ! j)) \<longrightarrow>
      fst (pipe_stream (map (Delta []) cs @ [Done])) ! k =
        Fragment (fst (transform_chunk (cs ! k) True (ctx_after new_context (take k cs))))) \<and>
    fst (pipe_stream [Delta [] ''a</think>b'', Delta [] ''c</think>d'', Done]) =
      [Fragment (''a'' @ block_close @ ''b''), Fragment (''c'' @ block_close @ ''d'')]"
proof -
  let ?out = "fst (pipe_stream (map (Delta []) cs @ [Done]))"
  let ?l = "length cs \<le> k + 5 \<or>
            \<not> list_ex (str_contains think_close) (take 5 (drop (Suc k) cs))"
  from pipe_stream_closers [OF assms(1)] assms(2)
  have len: "length ?out = length cs"
    and nth: "?out ! k =
      Fragment (fst (transform_chunk (cs ! k) ?l (ctx_after new_context (take k cs))))"
    by auto
  have last: "?out ! k =
        Fragment (fst (transform_chunk (cs ! k) True (ctx_after new_context (take k cs))))"
    if "\<forall>j. k < j \<and> j < length cs \<longrightarrow> \<not> str_contains think_close (cs ! j)"
  proof -
    from no_later_closer [OF that] have "?l = True" by simp
    with nth show ?thesis by simp
  qed
  have ex: "fst (pipe_stream [Delta [] ''a</think>b'', Delta [] ''c</think>d'', Done]) =
      [Fragment (''a'' @ block_close @ ''b''), Fragment (''c'' @ block_close @ ''d'')]"
    by code_simp
  from len nth last ex show ?thesis by blast
qed

text \<open>
  An instance with seven chunks: the first \<open></think>\<close> has another one among the next 5
  chunks and is deleted; the last one is decorated.
\<close>

theorem pipe_stream_last_closer_witness:
  "5 < length [''a</think>'', ''b'', ''c'', ''d'', ''e'', ''f</think>'', ''g''] \<and>
   str_contains think_close ([''a</think>'', ''b'', ''c'', ''d'', ''e'', ''f</think>'', ''g''] ! 5) \<and>
   fst (pipe_stream
          (map (Delta []) [''a</think>'', ''b'', ''c'', ''d'', ''e'', ''f</think>'', ''g''] @ [Done])) ! 5 =
     Fragment (fst (transform_chunk
        ([''a</think>'', ''b'', ''c'', ''d'', ''e'', ''f</think>'', ''g''] ! 5) True
        (ctx_after new_context
           (take 5 [''a</think>'', ''b'', ''c'', ''d'', ''e'', ''f</think>'', ''g''])))) \<and>
   fst (pipe_stream
          (map (Delta []) [''a</think>'', ''b'', ''c'', ''d'', ''e'', ''f</think>'', ''g''] @ [Done])) =
     [Fragment ''a'', Fragment ''b'', Fragment ''c'', Fragment ''d'', Fragment ''e'',
      Fragment (''f'' @ block_close), Fragment ''g'']"
proof -
  let ?cs = "[''a</think>'', ''b'', ''c'', ''d'', ''e'', ''f</think>'', ''g'']"
  have k: "5 < length ?cs" by simp
  have c: "str_contains think_close (?cs ! 5)" by code_simp
  have g: "\<not> str_contains think_close ''g''" by code_simp
  have n: "\<forall>j. 5 < j \<and> j < length ?cs \<longrightarrow> \<not> str_contains think_close (?cs ! j)"
  proof (intro allI impI)
    fix j assume "5 < j \<and> j < length ?cs"
    then have "j = 6" by simp
    with g show "\<not> str_contains think_close (?cs ! j)" by simp
  qed
  have e: "fst (pipe_stream (map (Delta []) ?cs @ [Done])) =
     [Fragment ''a'', Fragment ''b'', Fragment ''c'', Fragment ''d'', Fragment ''e'',
      Fragment (''f'' @ block_close), Fragment ''g'']"
    by code_simp
  from pipe_stream_last_closer [OF k c] n
  have "fst (pipe_stream (map (Delta []) ?cs @ [Done])) ! 5 =
     Fragment (fst (transform_chunk (?cs ! 5) True (ctx_after new_context (take 5 ?cs))))"
    by blast
  with k c e show ?thesis by blast
qed

text \<open>
  Claim C1 as stated fails on its own scenario: the first fragment is \<open>a\<close>, the
  decoration and \<open>b\<close>, not \<open>ab\<close>, since both chunks are still in the buffer when the
  stream ends and the forced finalization decorates every \<open></think>\<close>.
\<close>

theorem scenario_two_closers_counterexample:
  "fst (pipe_stream [Delta [] ''a</think>b'', Delta [] ''c</think>d'', Done]) =
     [Fragment (''a'' @ block_close @ ''b''), Fragment (''c'' @ block_close @ ''d'')] \<and>
   fst (pipe_stream [Delta [] ''a</think>b'', Delta [] ''c</think>d'', Done]) \<noteq>
     [Fragment ''ab'', Fragment (''c'' @ block_close @ ''d'')]"
  by code_simp

section \<open>How often the block-open decoration is inserted\<close>

lemma pipe_stream_nth:
  assumes "k < length cs"
  shows "\<exists>l. fst (pipe_stream (map (Delta []) cs @ [Done])) ! k =
           Fragment (fst (transform_chunk (cs ! k) l (ctx_after new_context (take k cs))))"
  using pipe_stream_closers [OF assms] by blast

text \<open>
  Claim C6 as the code has it. With \<open>first_think_found\<close> unset, the loop over \<open><think>\<close>
  replaces the first occurrence by the block-open decoration, sets the flag and goes on, with
  the flag set, on the text after that occurrence. With the flag set the loop only deletes:
  its result is a subsequence of its input and the flag stays set. In a stream followed by
  \<open>[DONE]\<close> the chunk at position \<open>k\<close> is transformed in a context whose flag is set
  exactly when an earlier chunk holds a \<open><think>\<close>. So the decoration is inserted at most
  once in a stream. The chunk \<open><think>x<think>y\<close> in a fresh context gives the decoration
  followed by \<open>xy\<close>.
\<close>

theorem think_open_replaced_once:
  "(str_index chunk think_open = Some idx \<and> \<not> first_think_found ctx \<longrightarrow>
      think_loop chunk ctx =
        (take idx chunk @ block_open @
           fst (think_loop (drop (idx + length think_open) chunk)
                  (ctx\<lparr>first_think_found := True\<rparr>)),
         ctx\<lparr>first_think_found := True\<rparr>)) \<and>
   (first_think_found ctx \<longrightarrow>
      subseq (fst (think_loop chunk ctx)) chunk \<and> snd (think_loop chunk ctx) = ctx) \<and>
   (k < length cs \<longrightarrow>
      (\<exists>l. fst (pipe_stream (map (Delta []) cs @ [Done])) ! k =
         Fragment (fst (transform_chunk (cs ! k) l
           (new_context\<lparr>first_think_found :=
              list_ex (str_contains think_open) (take k cs)\<rparr>))))) \<and>
   transform_chunk ''<think>x<think>y'' False new_context =
     (block_open @ ''xy'', \<lparr>first_think_found = True\<rparr>)"
proof (intro conjI impI)
  assume "str_index chunk think_open = Some idx \<and> \<not> first_think_found ctx"
  then show "think_loop chunk ctx =
        (take idx chunk @ block_open @
           fst (think_loop (drop (idx + length think_open) chunk)
                  (ctx\<lparr>first_think_found := True\<rparr>)),
         ctx\<lparr>first_think_found := True\<rparr>)"
    using think_loop_first [of chunk idx ctx] by blast
next
  assume "first_think_found ctx"
  then show "subseq (fst (think_loop chunk ctx)) chunk" by (rule think_loop_deletes)
next
  assume "first_think_found ctx"
  then show "snd (think_loop chunk ctx) = ctx" by (rule think_loop_found)
next
  assume "k < length cs"
  from pipe_stream_nth [OF this]
  show "\<exists>l. fst (pipe_stream (map (Delta []) cs @ [Done])) ! k =
         Fragment (fst (transform_chunk (cs ! k) l
           (new_context\<lparr>first_think_found :=
              list_ex (str_contains think_open) (take k cs)\<rparr>)))"
    by (simp add: ctx_after_def new_context_def)
next
  show "transform_chunk ''<think>x<think>y'' False new_context =
     (block_open @ ''xy'', \<lparr>first_think_found = True\<rparr>)"
    by code_simp
qed

theorem think_open_replaced_once_witness:
  "str_index ''a<think>b<think>c'' think_open = Some 1 \<and>
   \<not> first_think_found new_context \<and>
   first_think_found \<lparr>first_think_found = True\<rparr> \<and>
   1 < length [''<think>'', ''x<think>y''] \<and>
   think_loop ''a<think>b<think>c'' new_context =
     (take 1 ''a<think>b<think>c'' @ block_open @
        fst (think_loop (drop (1 + length think_open) ''a<think>b<think>c'')
               (new_context\<lparr>first_think_found := True\<rparr>)),
      new_context\<lparr>first_think_found := True\<rparr>) \<and>
   think_loop ''a<think>b<think>c'' new_context =
     (''a'' @ block_open @ ''bc'', \<lparr>first_think_found = True\<rparr>) \<and>
   subseq (fst (think_loop ''a<think>b<think>c'' \<lparr>first_think_found = True\<rparr>))
     ''a<think>b<think>c'' \<and>
   think_loop ''a<think>b<think>c'' \<lparr>first_think_found = True\<rparr> =
     (''abc'', \<lparr>first_think_found = True\<rparr>) \<and>
   (\<exists>l. fst (pipe_stream (map (Delta []) [''<think>'', ''x<think>y''] @ [Done])) ! 1 =
      Fragment (fst (transform_chunk ([''<think>'', ''x<think>y''] ! 1) l
        (new_context\<lparr>first_think_found :=
           list_ex (str_contains think_open) (take 1 [''<think>'', ''x<think>y''])\<rparr>)))) \<and>
   fst (pipe_stream (map (Delta []) [''<think>'', ''x<think>y''] @ [Done])) =
     [Fragment block_open, Fragment ''xy'']"
proof -
  have a: "str_index ''a<think>b<think>c'' think_open = Some 1" by code_simp
  have b: "\<not> first_think_found new_context" by (simp add: new_context_def)
  have c: "first_think_found \<lparr>first_think_found = True\<rparr>" by simp
  have d: "1 < length [''<think>'', ''x<think>y'']" by simp
  have e1: "think_loop ''a<think>b<think>c'' new_context =
     (''a'' @ block_open @ ''bc'', \<lparr>first_think_found = True\<rparr>)" by code_simp
  have e2: "think_loop ''a<think>b<think>c'' \<lparr>first_think_found = True\<rparr> =
     (''abc'', \<lparr>first_think_found = True\<rparr>)" by code_simp
  have e3: "fst (pipe_stream (map (Delta []) [''<think>'', ''x<think>y''] @ [Done])) =
     [Fragment block_open, Fragment ''xy'']" by code_simp
  note t1 = think_open_replaced_once
    [where chunk = "''a<think>b<think>c''" and idx = 1 and ctx = new_context and k = 1
       and cs = "[''<think>'', ''x<think>y'']"]
  note t2 = think_open_replaced_once
    [where chunk = "''a<think>b<think>c''" and ctx = "\<lparr>first_think_found = True\<rparr>"]
  from t1 a b have w1: "think_loop ''a<think>b<think>c'' new_context =
     (take 1 ''a<think>b<think>c'' @ block_open @
        fst (think_loop (drop (1 + length think_open) ''a<think>b<think>c'')
               (new_context\<lparr>first_think_found := True\<rparr>)),
      new_context\<lparr>first_think_found := True\<rparr>)"
    by blast
  from t1 d have w3: "\<exists>l. fst (pipe_stream (map (Delta []) [''<think>'', ''x<think>y''] @ [Done])) ! 1 =
      Fragment (fst (transform_chunk ([''<think>'', ''x<think>y''] ! 1) l
        (new_context\<lparr>first_think_found :=
           list_ex (str_contains think_open) (take 1 [''<think>'', ''x<think>y''])\<rparr>)))"
    by blast
  from t2 c
  have w2: "subseq (fst (think_loop ''a<think>b<think>c'' \<lparr>first_think_found = True\<rparr>))
          ''a<think>b<think>c''"
    by blast
  from a b c d w1 e1 w2 e2 w3 e3 show ?thesis by blast
qed

text \<open>
  Claim C6 as stated fails when the raw text already spells the decoration: it is passed
  through, and the decoration for the \<open><think>\<close> after it is the second one in the output.
\<close>

theorem block_open_twice_counterexample:
  "transform_chunk (block_open @ ''<think>'') False new_context =
     (block_open @ block_open, \<lparr>first_think_found = True\<rparr>) \<and>
   count_occurrences (block_open @ block_open) block_open = 2"
  by code_simp

section \<open>Termination of the transformer\<close>

lemma think_loop_total: "think_loop_dom (result, ctx)"
proof -
  have "All think_loop_dom"
  proof (rule "think_loop.termination" [of "measure think_measure"])
    show "wf (measure think_measure)" by simp
  next
    fix result ctx idx x y
    assume "str_index result think_open = Some idx" and "(x, y) = think_body idx result ctx"
    then show "((x, y), result, ctx) \<in> measure think_measure"
      using think_body_measure [of result idx ctx] by simp
  qed
  then show ?thesis by blast
qed

lemma close_loop_total: "close_loop_dom (is_last_think, result)"
proof -
  have "All close_loop_dom"
  proof (rule "close_loop.termination" [of "measure (\<lambda>(l, r). length r)"])
    show "wf (measure (\<lambda>(l, r). length r))" by simp
  next
    fix is_last_think result idx
    assume "str_index result think_close = Some idx"
    then show "((is_last_think, close_body idx is_last_think result), is_last_think, result)
        \<in> measure (\<lambda>(l, r). length r)"
      by (simp add: close_body_length)
  qed
  then show ?thesis by blast
qed

lemma str_replace_total: "str_replace_dom (s, old, new)"
proof -
  have "All str_replace_dom"
    by (rule "str_replace.termination" [of "measure (\<lambda>(s, old, new). length s)"]) auto
  then show ?thesis by blast
qed

lemma count_occurrences_shielded:
  "\<forall>j<length P. \<not> prefix pat (drop j (P @ v)) \<Longrightarrow>
   count_occurrences (P @ v) pat = count_occurrences v pat"
proof (induction P)
  case Nil
  then show ?case by simp
next
  case (Cons c P)
  from Cons.prems have "\<not> prefix pat (drop 0 ((c # P) @ v))" by blast
  then have n: "\<not> startswith (c # P @ v) pat" by (simp add: startswith_prefix)
  have "\<forall>j<length P. \<not> prefix pat (drop j (P @ v))"
  proof (intro allI impI)
    fix j assume "j < length P"
    then have "Suc j < length (c # P)" by simp
    with Cons.prems have "\<not> prefix pat (drop (Suc j) ((c # P) @ v))" by blast
    then show "\<not> prefix pat (drop j (P @ v))" by simp
  qed
  from Cons.IH [OF this] n show ?case by simp
qed

lemma count_occurrences_mono: "count_occurrences v pat \<le> count_occurrences (P @ v) pat"
  by (induction P) auto

lemma count_occurrences_replaced:
  assumes "str_index s pat = Some idx" and "pat = p # ps" and "block \<noteq> []"
    and "hd block \<notin> set pat" and "p \<notin> set block"
  shows "count_occurrences (take idx s @ block @ drop (idx + length pat) s) pat
           < count_occurrences s pat"
proof -
  let ?pre = "take idx s" and ?post = "drop (idx + length pat) s"
  from str_index_first [OF assms(1)] have le: "idx \<le> length s"
    and first: "\<forall>j<idx. \<not> prefix pat (drop j s)" by simp_all
  have s: "s = ?pre @ pat @ ?post" by (rule str_index_split [OF assms(1)])
  from le have len: "length ?pre = idx" by simp
  have "\<forall>j<length ?pre. \<not> prefix pat (drop j (?pre @ pat @ ?post))"
    using first len s by simp
  then have "count_occurrences (?pre @ pat @ ?post) pat = count_occurrences (pat @ ?post) pat"
    by (rule count_occurrences_shielded)
  with s have 1: "count_occurrences s pat = count_occurrences (pat @ ?post) pat" by simp
  have "count_occurrences (pat @ ?post) pat = 1 + count_occurrences (ps @ ?post) pat"
    by (simp add: assms(2) startswith_prefix)
  also have "\<dots> \<ge> 1 + count_occurrences ?post pat"
    using count_occurrences_mono [of ?post pat ps] by simp
  finally have 2: "1 + count_occurrences ?post pat \<le> count_occurrences (pat @ ?post) pat" .
  from replacement_shield [OF assms]
  have "\<forall>j<length (?pre @ block). \<not> prefix pat (drop j ((?pre @ block) @ ?post))"
    by (simp add: shields_def)
  then have "count_occurrences ((?pre @ block) @ ?post) pat = count_occurrences ?post pat"
    by (rule count_occurrences_shielded)
  with 1 2 show ?thesis by simp
qed

text \<open>
  Claim C10 as the code has it. The two loops and \<open>replace\<close> terminate on every input.
  An iteration of the loop over \<open><think>\<close> lowers the measure \<open>think_measure\<close>: with
  \<open>first_think_found\<close> unset it replaces, which lowers the number of \<open><think>\<close>
  occurrences and sets the flag; with the flag set it deletes, which shortens the text by
  the length of the marker. An iteration of the loop over \<open></think>\<close> shortens the text:
  with \<open>is_last_think\<close> it replaces, which lowers the number of \<open></think>\<close> occurrences;
  otherwise it deletes, which shortens the text by the length of the marker. The removal
  of fragments is six \<open>replace\<close> calls, one after the other.
\<close>

theorem transform_chunk_terminates:
  "think_loop_dom (result, ctx) \<and>
   close_loop_dom (is_last_think, result') \<and>
   str_replace_dom (result', old, new) \<and>
   (str_index result think_open = Some idx \<longrightarrow>
      think_measure (think_body idx result ctx) < think_measure (result, ctx) \<and>
      (if first_think_found ctx
       then length (fst (think_body idx result ctx)) + length think_open = length result
       else count_occurrences (fst (think_body idx result ctx)) think_open
              < count_occurrences result think_open \<and>
            first_think_found (snd (think_body idx result ctx)))) \<and>
   (str_index result' think_close = Some idx' \<longrightarrow>
      length (close_body idx' is_last_think result') < length result' \<and>
      (if is_last_think
       then count_occurrences (close_body idx' is_last_think result') think_close
              < count_occurrences result' think_close
       else length (close_body idx' is_last_think result') + length think_close = length result')) \<and>
   remove_fragments result' =
     str_replace (str_replace (str_replace (str_replace (str_replace (str_replace result'
       ''/think>'' []) ''think>'' []) ''hink>'' []) ''ink>'' []) ''nk>'' []) ''k>'' []"
proof (intro conjI impI)
  show "think_loop_dom (result, ctx)" by (rule think_loop_total)
  show "close_loop_dom (is_last_think, result')" by (rule close_loop_total)
  show "str_replace_dom (result', old, new)" by (rule str_replace_total)
  show "remove_fragments result' =
     str_replace (str_replace (str_replace (str_replace (str_replace (str_replace result'
       ''/think>'' []) ''think>'' []) ''hink>'' []) ''ink>'' []) ''nk>'' []) ''k>'' []"
    by (simp add: remove_fragments_def fragments_def)
next
  assume o: "str_index result think_open = Some idx"
  show "think_measure (think_body idx result ctx) < think_measure (result, ctx)"
    by (rule think_body_measure [OF o])
  show "if first_think_found ctx
       then length (fst (think_body idx result ctx)) + length think_open = length result
       else count_occurrences (fst (think_body idx result ctx)) think_open
              < count_occurrences result think_open \<and>
            first_think_found (snd (think_body idx result ctx))"
  proof (cases "first_think_found ctx")
    case True
    with str_index_bound [OF o] show ?thesis by (simp add: think_body_def)
  next
    case False
    have "count_occurrences (take idx result @ block_open @ drop (idx + length think_open) result)
            think_open < count_occurrences result think_open"
      by (rule count_occurrences_replaced [OF o, of "CHR ''<''" "''think>''"])
         (simp_all add: think_open_def block_open_def)
    with False show ?thesis by (simp add: think_body_def)
  qed
next
  assume c: "str_index result' think_close = Some idx'"
  show "length (close_body idx' is_last_think result') < length result'"
    by (rule close_body_length [OF c])
  show "if is_last_think
       then count_occurrences (close_body idx' is_last_think result') think_close
              < count_occurrences result' think_close
       else length (close_body idx' is_last_think result') + length think_close = length result'"
  proof (cases is_last_think)
    case True
    have "count_occurrences (take idx' result' @ block_close @ drop (idx' + length think_close) result')
            think_close < count_occurrences result' think_close"
      by (rule count_occurrences_replaced [OF c, of "CHR ''<''" "''/think>''"])
         (simp_all add: think_close_def block_close_def)
    with True show ?thesis by (simp add: close_body_def)
  next
    case False
    with str_index_bound [OF c] show ?thesis by (simp add: close_body_def)
  qed
qed

text \<open>An instance: one replacing iteration of each loop.\<close>

theorem transform_chunk_terminates_witness:
  "str_index ''a<think>b<think>'' think_open = Some 1 \<and>
   str_index ''c</think>d'' think_close = Some 1 \<and>
   think_body 1 ''a<think>b<think>'' new_context =
     (''a'' @ block_open @ ''b<think>'', \<lparr>first_think_found = True\<rparr>) \<and>
   think_measure (think_body 1 ''a<think>b<think>'' new_context)
     < think_measure (''a<think>b<think>'', new_context) \<and>
   count_occurrences (fst (think_body 1 ''a<think>b<think>'' new_context)) think_open
     < count_occurrences ''a<think>b<think>'' think_open \<and>
   close_body 1 True ''c</think>d'' = ''c'' @ block_close @ ''d'' \<and>
   length (close_body 1 True ''c</think>d'') < length ''c</think>d'' \<and>
   count_occurrences (close_body 1 True ''c</think>d'') think_close
     < count_occurrences ''c</think>d'' think_close"
proof -
  have a: "str_index ''a<think>b<think>'' think_open = Some 1" by code_simp
  have b: "str_index ''c</think>d'' think_close = Some 1" by code_simp
  have c: "think_body 1 ''a<think>b<think>'' new_context =
     (''a'' @ block_open @ ''b<think>'', \<lparr>first_think_found = True\<rparr>)" by code_simp
  have d: "close_body 1 True ''c</think>d'' = ''c'' @ block_close @ ''d''" by code_simp
  have n: "\<not> first_think_found new_context" by (simp add: new_context_def)
  note t = transform_chunk_terminates
    [where result = "''a<think>b<think>''" and idx = 1 and ctx = new_context
       and result' = "''c</think>d''" and idx' = 1 and is_last_think = True]
  from t a n have 1: "think_measure (think_body 1 ''a<think>b<think>'' new_context)
     < think_measure (''a<think>b<think>'', new_context)"
    and 2: "count_occurrences (fst (think_body 1 ''a<think>b<think>'' new_context)) think_open
     < count_occurrences ''a<think>b<think>'' think_open"
    by auto
  from t b have 3: "length (close_body 1 True ''c</think>d'') < length ''c</think>d''"
    and 4: "count_occurrences (close_body 1 True ''c</think>d'') think_close
     < count_occurrences ''c</think>d'' think_close"
    by auto
  from a b c 1 2 d 3 4 show ?thesis by blast
qed

text \<open>
  Claim C10 as stated fails for a deleting iteration: deleting the \<open><think>\<close> inside
  \<open><thi<think>nk>\<close> leaves \<open><think>\<close>, so the text has one occurrence before the
  iteration and one after it; the same holds for \<open></thi</think>nk>\<close> in the second loop
  when \<open>is_last_think\<close> is false.
\<close>

theorem occurrences_not_decreasing_counterexample:
  "str_index ''<thi<think>nk>'' think_open = Some 4 \<and>
   count_occurrences ''<thi<think>nk>'' think_open = 1 \<and>
   think_body 4 ''<thi<think>nk>'' \<lparr>first_think_found = True\<rparr> =
     (''<think>'', \<lparr>first_think_found = True\<rparr>) \<and>
   count_occurrences ''<think>'' think_open = 1 \<and>
   str_index ''</thi</think>nk>'' think_close = Some 5 \<and>
   count_occurrences ''</thi</think>nk>'' think_close = 1 \<and>
   close_body 5 False ''</thi</think>nk>'' = ''</think>'' \<and>
   count_occurrences ''</think>'' think_close = 1"
  by code_simp

end
